theory Spec2Isabelle
  imports Complex_Main
begin

section \<open>Numbers\<close>

text \<open>
  Every number of the program is a JavaScript \<open>number\<close>, a binary64 floating point
  number: a finite value, \<open>Infinity\<close>, \<open>-Infinity\<close> or \<open>NaN\<close>. A finite value is a real
  here, and what makes it a double is that each arithmetic operation rounds its exact
  result to the nearest double, to the even one of two nearest, and to an infinity
  beyond the largest double. The sign of a zero is not modelled: \<open>-0\<close> is \<open>0\<close> (the
  two compare equal, and with a vesting period and a frequency above \<open>0\<close> the program
  divides by no zero of negative sign).
\<close>

datatype jsnum = Fin real | PosInf | NegInf | NaN

text \<open>The power of two of an integer exponent.\<close>

definition pow2 :: "int \<Rightarrow> real" where
  "pow2 e = (if 0 \<le> e then 2 ^ nat e else 1 / 2 ^ nat (- e))"

text \<open>Rounding a real to the nearest integer, a tie to the even one.\<close>

definition roundHalfEven :: "real \<Rightarrow> int" where
  "roundHalfEven y =
     (let f = \<lfloor>y\<rfloor>; d = y - of_int f
      in if d < 1 / 2 then f else if 1 / 2 < d then f + 1 else if even f then f else f + 1)"

text \<open>
  The doubles around a real \<open>x\<close> other than \<open>0\<close> are the multiples of \<open>pow2 e\<close>, where
  \<open>e\<close> is the exponent of \<open>x\<close> less the 52 bits of the fraction, and at least \<open>-1074\<close>,
  the exponent of the subnormal numbers.
\<close>

definition exponent64 :: "real \<Rightarrow> int" where
  "exponent64 x = max (\<lfloor>log 2 \<bar>x\<bar>\<rfloor> - 52) (- 1074)"

text \<open>
  Rounding to binary64. The largest double is \<open>(2 ^ 53 - 1) * 2 ^ 971\<close>; a real that
  rounds to \<open>2 ^ 1024\<close> or beyond overflows.
\<close>

definition round64 :: "real \<Rightarrow> jsnum" where
  "round64 x =
     (if x = 0 then Fin 0
      else
        let e = exponent64 x;
            r = of_int (roundHalfEven (x / pow2 e)) * pow2 e
        in if 2 ^ 1024 \<le> \<bar>r\<bar> then (if 0 < x then PosInf else NegInf) else Fin r)"

text \<open>The number an integer denotes: itself up to \<open>2 ^ 53\<close>, the nearest double beyond.\<close>

definition num :: "int \<Rightarrow> jsnum" where
  "num i = round64 (of_int i)"

fun js_neg :: "jsnum \<Rightarrow> jsnum" where
  "js_neg (Fin a) = Fin (- a)"
| "js_neg PosInf = NegInf"
| "js_neg NegInf = PosInf"
| "js_neg NaN = NaN"

fun js_add :: "jsnum \<Rightarrow> jsnum \<Rightarrow> jsnum" where
  "js_add NaN y = NaN"
| "js_add x NaN = NaN"
| "js_add (Fin a) (Fin b) = round64 (a + b)"
| "js_add PosInf NegInf = NaN"
| "js_add NegInf PosInf = NaN"
| "js_add PosInf y = PosInf"
| "js_add NegInf y = NegInf"
| "js_add (Fin a) y = y"

definition js_sub :: "jsnum \<Rightarrow> jsnum \<Rightarrow> jsnum" where
  "js_sub x y = js_add x (js_neg y)"

text \<open>The sign of a number that is not \<open>NaN\<close>: \<open>-1\<close>, \<open>0\<close> or \<open>1\<close>.\<close>

fun js_sign :: "jsnum \<Rightarrow> int" where
  "js_sign (Fin a) = (if a < 0 then - 1 else if a = 0 then 0 else 1)"
| "js_sign PosInf = 1"
| "js_sign NegInf = - 1"
| "js_sign NaN = 0"

definition signed_inf :: "int \<Rightarrow> jsnum" where
  "signed_inf s = (if s < 0 then NegInf else PosInf)"

fun js_mul :: "jsnum \<Rightarrow> jsnum \<Rightarrow> jsnum" where
  "js_mul NaN y = NaN"
| "js_mul x NaN = NaN"
| "js_mul (Fin a) (Fin b) = round64 (a * b)"
| "js_mul x y =
     (if js_sign x * js_sign y = 0 then NaN else signed_inf (js_sign x * js_sign y))"

fun js_div :: "jsnum \<Rightarrow> jsnum \<Rightarrow> jsnum" where
  "js_div NaN y = NaN"
| "js_div x NaN = NaN"
| "js_div (Fin a) (Fin b) =
     (if b = 0 then (if a = 0 then NaN else signed_inf (js_sign (Fin a)))
      else round64 (a / b))"
| "js_div (Fin a) y = Fin 0"
| "js_div x (Fin b) = signed_inf (js_sign x * (if b < 0 then - 1 else 1))"
| "js_div x y = NaN"

text \<open>\<open>Math.floor\<close> and \<open>Math.ceil\<close>; the result, a whole number, is a double.\<close>

fun js_floor :: "jsnum \<Rightarrow> jsnum" where
  "js_floor (Fin a) = Fin (of_int \<lfloor>a\<rfloor>)"
| "js_floor x = x"

fun js_ceil :: "jsnum \<Rightarrow> jsnum" where
  "js_ceil (Fin a) = Fin (of_int \<lceil>a\<rceil>)"
| "js_ceil x = x"

text \<open>\<open>x <= y\<close> on numbers: false as soon as one side is \<open>NaN\<close>.\<close>

fun js_le :: "jsnum \<Rightarrow> jsnum \<Rightarrow> bool" where
  "js_le NaN y = False"
| "js_le x NaN = False"
| "js_le (Fin a) (Fin b) = (a \<le> b)"
| "js_le NegInf y = True"
| "js_le x PosInf = True"
| "js_le x y = False"

text \<open>Truthiness of a number, as \<open>||\<close> tests it: \<open>0\<close> and \<open>NaN\<close> are falsy.\<close>

fun truthy :: "jsnum \<Rightarrow> bool" where
  "truthy (Fin a) = (a \<noteq> 0)"
| "truthy NaN = False"
| "truthy x = True"

text \<open>\<open>p || d\<close> for an optional number \<open>p\<close> (\<open>undefined\<close> is falsy).\<close>

fun or_else :: "jsnum option \<Rightarrow> jsnum \<Rightarrow> jsnum" where
  "or_else None d = d"
| "or_else (Some p) d = (if truthy p then p else d)"

section \<open>Dates\<close>

text \<open>
  A \<open>Date\<close> by its local calendar fields, named as the methods that read them
  (\<open>getMonth\<close> is \<open>0\<close> for January, \<open>getDate\<close> is the day of the month), and the
  milliseconds since local midnight. Two dates compare by their time values, which is
  the lexicographic order of the fields.
\<close>

record jsdate =
  getFullYear :: int
  getMonth :: int
  getDate :: int
  timeOfDay :: int

definition date_less :: "jsdate \<Rightarrow> jsdate \<Rightarrow> bool" where
  "date_less a b =
     (getFullYear a < getFullYear b \<or> (getFullYear a = getFullYear b \<and>
       (getMonth a < getMonth b \<or> (getMonth a = getMonth b \<and>
         (getDate a < getDate b \<or>
           (getDate a = getDate b \<and> timeOfDay a < timeOfDay b))))))"

definition date_le :: "jsdate \<Rightarrow> jsdate \<Rightarrow> bool" where
  "date_le a b = (date_less a b \<or>
     (getFullYear a = getFullYear b \<and> getMonth a = getMonth b \<and>
      getDate a = getDate b \<and> timeOfDay a = timeOfDay b))"

definition isLeapYear :: "int \<Rightarrow> bool" where
  "isLeapYear y = (y mod 4 = 0 \<and> (y mod 400 = 0 \<or> y mod 100 \<noteq> 0))"

definition getDaysInMonth :: "int \<Rightarrow> int \<Rightarrow> int" where
  "getDaysInMonth y m =
     (if m = 1 then (if isLeapYear y then 29 else 28)
      else if m = 3 \<or> m = 5 \<or> m = 8 \<or> m = 10 then 30 else 31)"

text \<open>
  Modelled from the spec: \<open>addMonths\<close> is imported from the date-fns library, whose code
  is not part of the repository. The spec describes it as calendar month arithmetic,
  "adding N months to a date, preserving day-of-month with end-of-month clamping": the
  month count moves the year and the month, the day of the month is kept unless the
  target month is shorter, in which case it is the last day of that month, and the time
  of day is kept. Adding \<open>0\<close> months returns the date as it is.
\<close>

definition addMonths :: "jsdate \<Rightarrow> int \<Rightarrow> jsdate" where
  "addMonths d amount =
     (if amount = 0 then d
      else
        let total = getFullYear d * 12 + getMonth d + amount;
            y = total div 12;
            m = total mod 12;
            daysInMonth = getDaysInMonth y m
        in d\<lparr>getFullYear := y, getMonth := m,
              getDate := (if getDate d \<ge> daysInMonth then daysInMonth else getDate d)\<rparr>)"

section \<open>The price source\<close>

text \<open>
  \<open>utils/stockPrices.ts\<close>. Both functions talk to the outside: they read the clock
  (\<open>new Date()\<close>) and send requests (\<open>fetch\<close>). The outside is an environment, which
  answers the \<open>n\<close>-th clock read and the \<open>n\<close>-th request whatever way it likes, and the
  state threaded through the calls counts the clock reads and records the requests
  sent, in order (and the updates of the stock price table, see \<open>setStockPrices\<close>
  below). What \<open>console.error\<close> prints is not modelled.
\<close>

text \<open>
  The two URLs: the chart of a symbol for the current day, and the chart of a symbol
  for the day that starts at a date's time value.
\<close>

datatype request = CurrentChart string | HistoricalChart string jsdate

text \<open>
  The body of a response, as far as the code reads it. A property that is absent,
  \<open>undefined\<close> or \<open>null\<close> is \<open>None\<close> (the code never tells the three apart), an array is
  a list, and the prices are numbers, as the declared result types say.
\<close>

record Quote =
  close :: "jsnum option list option"

record AdjClose =
  adjclose' :: "jsnum option list option"

record Indicators =
  quote :: "Quote option list option"
  adjclose :: "AdjClose option list option"

record Meta =
  regularMarketPrice :: "jsnum option"

record ChartResult =
  meta :: "Meta option"
  indicators :: "Indicators option"

record Chart =
  result :: "ChartResult option list option"

record ChartData =
  chart :: "Chart option"

text \<open>\<open>response.json()\<close> rejects, or resolves with the parsed body (\<open>None\<close> for \<open>null\<close>).\<close>

datatype body = Unparsable | Parsed "ChartData option"

record Response =
  ok :: bool
  status :: int
  json :: body

text \<open>\<open>fetch\<close> rejects, or resolves with a response.\<close>

datatype fetched = Rejected | Resolved Response

record env =
  clock :: "nat \<Rightarrow> jsdate"
  network :: "nat \<Rightarrow> request \<Rightarrow> fetched"

record world =
  clockReads :: nat
  requests :: "request list"
  stockPriceUpdates :: "(string \<times> jsnum) list"

definition newDate :: "env \<Rightarrow> world \<Rightarrow> jsdate \<times> world" where
  "newDate e w = (clock e (clockReads w), w\<lparr>clockReads := Suc (clockReads w)\<rparr>)"

definition fetch :: "env \<Rightarrow> request \<Rightarrow> world \<Rightarrow> fetched \<times> world" where
  "fetch e r w = (network e (length (requests w)) r, w\<lparr>requests := requests w @ [r]\<rparr>)"

text \<open>
  What the two functions throw: the three \<open>Error\<close>s they construct, the rejections of
  \<open>fetch\<close> and of \<open>json()\<close>, and the \<open>TypeError\<close> of reading a property of \<open>undefined\<close>
  or \<open>null\<close>. Each is caught, logged and thrown again, so it is the result of the
  call: \<open>Inl\<close> the error.
\<close>

datatype PriceFetchError =
  HttpError int
  | InvalidDataFormat
  | NoPriceData
  | FetchRejected
  | JsonRejected
  | TypeError

text \<open>\<open>a?.[0]\<close> on an array: its first element, \<open>None\<close> when there is none or it is \<open>null\<close>.\<close>

fun first :: "'a option list \<Rightarrow> 'a option" where
  "first [] = None"
| "first (x # xs) = x"

text \<open>\<open>data.chart?.result?.[0]\<close>; an optional chain \<open>a?.b\<close> is \<open>Option.bind a b\<close>.\<close>

definition firstResult :: "ChartData \<Rightarrow> ChartResult option" where
  "firstResult data = Option.bind (Option.bind (chart data) result) first"

definition fetchStockPrice ::
  "env \<Rightarrow> string \<Rightarrow> world \<Rightarrow> (PriceFetchError + jsnum) \<times> world" where
  "fetchStockPrice e symbol w =
     (let (fetched, w1) = fetch e (CurrentChart symbol) w
      in ((case fetched of
             Rejected \<Rightarrow> Inl FetchRejected
           | Resolved response \<Rightarrow>
               if \<not> ok response then Inl (HttpError (status response))
               else
                 (case json response of
                    Unparsable \<Rightarrow> Inl JsonRejected
                  | Parsed None \<Rightarrow> Inl TypeError
                  | Parsed (Some data) \<Rightarrow>
                      (case Option.bind (Option.bind (firstResult data) meta)
                              regularMarketPrice of
                         None \<Rightarrow> Inl InvalidDataFormat
                       | Some price \<Rightarrow>
                           if \<not> truthy price then Inl InvalidDataFormat else Inr price))),
          w1))"

text \<open>
  The part of \<open>fetchHistoricalPrice\<close> that reads the parsed body: the closing price,
  else the adjusted closing price, else the regular market price.
\<close>

definition historicalPriceOf :: "ChartData \<Rightarrow> PriceFetchError + jsnum option" where
  "historicalPriceOf data =
     (case firstResult data of
        None \<Rightarrow> Inl NoPriceData
      | Some result' \<Rightarrow>
          (case Option.bind (indicators result') quote of
             None \<Rightarrow> Inl TypeError
           | Some quoteList \<Rightarrow>
               (case first quoteList of
                  None \<Rightarrow> Inl TypeError
                | Some quotes \<Rightarrow>
                    (case Option.bind (close quotes) first of
                       Some closePrice \<Rightarrow> Inr (Some closePrice)
                     | None \<Rightarrow>
                         (case Option.bind (Option.bind (Option.bind
                                 (Option.bind (indicators result') adjclose) first)
                                 adjclose') first of
                            Some adjClose \<Rightarrow> Inr (Some adjClose)
                          | None \<Rightarrow>
                              (case Option.bind (meta result') regularMarketPrice of
                                 None \<Rightarrow> Inl NoPriceData
                               | Some price \<Rightarrow>
                                   if truthy price then Inr (Some price)
                                   else Inl NoPriceData))))))"

text \<open>The result \<open>Inr None\<close> is \<open>null\<close>: no price, and no error.\<close>

definition fetchHistoricalPrice ::
  "env \<Rightarrow> string \<Rightarrow> jsdate \<Rightarrow> world \<Rightarrow> (PriceFetchError + jsnum option) \<times> world" where
  "fetchHistoricalPrice e symbol date w =
     (let (now, w1) = newDate e w
      in if date_less now date then (Inr None, w1)
         else
           let (fetched, w2) = fetch e (HistoricalChart symbol date) w1
           in ((case fetched of
                  Rejected \<Rightarrow> Inl FetchRejected
                | Resolved response \<Rightarrow>
                    if \<not> ok response then Inl (HttpError (status response))
                    else
                      (case json response of
                         Unparsable \<Rightarrow> Inl JsonRejected
                       | Parsed None \<Rightarrow> Inl TypeError
                       | Parsed (Some data) \<Rightarrow> historicalPriceOf data)),
               w2))"

section \<open>Vesting events\<close>

text \<open>
  \<open>VestingEvent\<close> of \<open>types/rsu.ts\<close>. An optional field is an \<open>option\<close>, \<open>None\<close> when
  it is absent or \<open>undefined\<close>. The field \<open>value\<close> is \<open>value'\<close> here.
\<close>

record VestingEvent =
  date :: jsdate
  quantity :: jsnum
  price :: "jsnum option"
  priceError :: "string option"
  value' :: "jsnum option"

section \<open>The vesting schedule\<close>

text \<open>
  \<open>generateVestingSchedule\<close> of \<open>utils/rsuCalculations.ts\<close>. Its arguments are share and
  month counts: integers, which \<open>num\<close> takes to the numbers where the code divides and
  multiplies them. The months themselves (the vesting period, the loop variable and
  the offsets handed to \<open>addMonths\<close>) are integers throughout, which is exact for
  month counts up to \<open>2 ^ 53\<close>. The event pushed for a month offset:
\<close>

definition vestingEvent :: "jsdate \<Rightarrow> int \<Rightarrow> jsnum \<Rightarrow> VestingEvent" where
  "vestingEvent grantDate m q =
     \<lparr>date = addMonths grantDate m, quantity = q, price = None, priceError = None,
      value' = None\<rparr>"

text \<open>
  The \<open>for\<close> loop over the regular vesting months. It need not end (a frequency of \<open>0\<close>
  or below never passes \<open>totalVestingMonths\<close>), so it is a partial function, \<open>None\<close>
  when the loop runs forever.
\<close>

partial_function (option) regularVesting ::
  "jsdate \<Rightarrow> int \<Rightarrow> int \<Rightarrow> int \<Rightarrow> jsnum \<Rightarrow> jsnum \<Rightarrow> int \<Rightarrow> VestingEvent list
     \<Rightarrow> VestingEvent list option" where
  "regularVesting grantDate cliffMonths vestingFrequencyMonths totalVestingMonths
       sharesPerVesting remainingShares month vestingEvents =
     (if month \<le> totalVestingMonths then
        regularVesting grantDate cliffMonths vestingFrequencyMonths totalVestingMonths
          sharesPerVesting remainingShares (month + vestingFrequencyMonths)
          (vestingEvents @
            [vestingEvent grantDate month
              (if cliffMonths > 0 then sharesPerVesting
               else if month = totalVestingMonths
                 then js_add sharesPerVesting remainingShares
                 else sharesPerVesting)])
      else Some vestingEvents)"

declare regularVesting.simps [code]

definition totalVestingEvents :: "int \<Rightarrow> int \<Rightarrow> int \<Rightarrow> jsnum" where
  "totalVestingEvents totalVestingMonths cliffMonths vestingFrequencyMonths =
     (if cliffMonths > 0
      then js_add (js_floor (js_div (num (totalVestingMonths - cliffMonths))
                                    (num vestingFrequencyMonths))) (num 1)
      else js_ceil (js_div (num totalVestingMonths) (num vestingFrequencyMonths)))"

definition generateVestingSchedule ::
  "jsdate \<Rightarrow> int \<Rightarrow> int \<Rightarrow> int \<Rightarrow> int \<Rightarrow> VestingEvent list option" where
  "generateVestingSchedule grantDate totalShares vestingPeriodYears cliffMonths
       vestingFrequencyMonths =
     (let totalVestingMonths = vestingPeriodYears * 12;
          events = totalVestingEvents totalVestingMonths cliffMonths vestingFrequencyMonths;
          sharesPerVesting = js_floor (js_div (num totalShares) events);
          remainingShares = js_sub (num totalShares) (js_mul sharesPerVesting events);
          vestingEvents =
            (if cliffMonths > 0
             then [vestingEvent grantDate cliffMonths
                     (js_add sharesPerVesting remainingShares)]
             else []);
          startMonth =
            (if cliffMonths > 0 then cliffMonths + vestingFrequencyMonths
             else vestingFrequencyMonths)
      in regularVesting grantDate cliffMonths vestingFrequencyMonths totalVestingMonths
           sharesPerVesting remainingShares startMonth vestingEvents)"

section \<open>Grants and their valuation\<close>

text \<open>
  \<open>RSUGrant\<close> of \<open>types/rsu.ts\<close>. The fields \<open>quantity\<close> and \<open>priceError\<close>, which an
  event has too, carry the prefix \<open>grant\<close>.
\<close>

record RSUGrant =
  grantDate :: jsdate
  grantQuantity :: jsnum
  grantPrice :: jsnum
  symbol :: string
  currentPrice :: "jsnum option"
  grantPriceError :: "string option"
  vestingSchedule :: "VestingEvent list"

text \<open>
  \<open>calculateTotalVestedShares\<close> and \<open>calculateTotalValue\<close>: a \<open>reduce\<close> from \<open>0\<close> is a
  left fold. The default \<open>asOfDate\<close>, the current time, is an argument.
\<close>

definition calculateTotalVestedShares :: "RSUGrant \<Rightarrow> jsdate \<Rightarrow> jsnum" where
  "calculateTotalVestedShares grant asOfDate =
     foldl (\<lambda>total event. js_add total (quantity event)) (Fin 0)
       (filter (\<lambda>event. date_le (date event) asOfDate) (vestingSchedule grant))"

definition calculateTotalValue :: "RSUGrant \<Rightarrow> jsnum \<Rightarrow> jsnum" where
  "calculateTotalValue grant currentPrice' =
     foldl (\<lambda>total event.
         js_add total (js_mul (quantity event) (or_else (price event) currentPrice')))
       (Fin 0) (vestingSchedule grant)"

section \<open>Attaching prices\<close>

text \<open>
  \<open>updateVestPrices\<close> of \<open>components/RSUCalculator.tsx\<close>. The callback of the \<open>map\<close>
  over the schedule is \<open>updateVestingEvent\<close>. The callbacks start in the order of the
  schedule, each reading the clock and sending its request before the next one starts,
  and none of them rejects, so \<open>Promise.all\<close> over them is a map in that order.
\<close>

definition updateVestingEvent ::
  "env \<Rightarrow> RSUGrant \<Rightarrow> jsnum \<Rightarrow> VestingEvent \<Rightarrow> world \<Rightarrow> VestingEvent \<times> world" where
  "updateVestingEvent e grant currentPrice' event w =
     (let (now, w1) = newDate e w;
          isVested = date_le (date event) now;
          ((price', priceError'), w2) =
            (if isVested then
               (case fetchHistoricalPrice e (symbol grant) (date event) w1 of
                  (Inr historicalPrice, w2) \<Rightarrow> ((historicalPrice, None), w2)
                | (Inl error, w2) \<Rightarrow> ((None, Some ''Failed to fetch price''), w2))
             else ((Some currentPrice', None), w1))
      in (event\<lparr>price := price', priceError := priceError',
                 value' := Some (js_mul (quantity event)
                                   (or_else price' (grantPrice grant)))\<rparr>,
          w2))"

fun updateSchedule ::
  "env \<Rightarrow> RSUGrant \<Rightarrow> jsnum \<Rightarrow> VestingEvent list \<Rightarrow> world \<Rightarrow> VestingEvent list \<times> world"
  where
  "updateSchedule e grant currentPrice' [] w = ([], w)"
| "updateSchedule e grant currentPrice' (event # events) w =
     (let (event', w1) = updateVestingEvent e grant currentPrice' event w;
          (events', w2) = updateSchedule e grant currentPrice' events w1
      in (event' # events', w2))"

definition updateVestPrices :: "env \<Rightarrow> RSUGrant \<Rightarrow> world \<Rightarrow> RSUGrant \<times> world" where
  "updateVestPrices e grant w =
     (case fetchStockPrice e (symbol grant) w of
        (Inr currentPrice', w1) \<Rightarrow>
          (let (updatedSchedule, w2) =
                 updateSchedule e grant currentPrice' (vestingSchedule grant) w1
           in (grant\<lparr>currentPrice := Some currentPrice',
                      vestingSchedule := updatedSchedule\<rparr>, w2))
      | (Inl error, w1) \<Rightarrow>
          (grant\<lparr>grantPriceError := Some ''Failed to fetch prices''\<rparr>, w1))"

text \<open>
  The second \<open>updateVestPrices\<close>, of the calculator with the stock price table. It is
  the first one but for the call of \<open>setStockPrices\<close> once the current price is there.
  The call hands React an updater, which runs later, on the table of that moment, and
  reads the clock then; the state of the model is the updaters handed over so far, each
  given by the symbol and the price it holds.
\<close>

datatype StockPriceEntry =
  StockPriceEntry (entrySymbol: string) (entryDate: jsdate) (entryPrice: jsnum)
    (isCurrentPrice: "bool option")

definition currentPriceUpdater ::
  "string \<Rightarrow> jsnum \<Rightarrow> jsdate \<Rightarrow> StockPriceEntry list \<Rightarrow> StockPriceEntry list" where
  "currentPriceUpdater grantSymbol currentPrice' now prev =
     (let filtered =
            filter (\<lambda>p. \<not> (entrySymbol p = grantSymbol \<and> isCurrentPrice p = Some True))
              prev
      in filtered @ [StockPriceEntry grantSymbol now currentPrice' (Some True)])"

definition setStockPrices :: "string \<Rightarrow> jsnum \<Rightarrow> world \<Rightarrow> world" where
  "setStockPrices grantSymbol currentPrice' w =
     w\<lparr>stockPriceUpdates := stockPriceUpdates w @ [(grantSymbol, currentPrice')]\<rparr>"

definition updateVestPrices' :: "env \<Rightarrow> RSUGrant \<Rightarrow> world \<Rightarrow> RSUGrant \<times> world" where
  "updateVestPrices' e grant w =
     (case fetchStockPrice e (symbol grant) w of
        (Inr currentPrice', w1) \<Rightarrow>
          (let w1' = setStockPrices (symbol grant) currentPrice' w1;
               (updatedSchedule, w2) =
                 updateSchedule e grant currentPrice' (vestingSchedule grant) w1'
           in (grant\<lparr>currentPrice := Some currentPrice',
                      vestingSchedule := updatedSchedule\<rparr>, w2))
      | (Inl error, w1) \<Rightarrow>
          (grant\<lparr>grantPriceError := Some ''Failed to fetch prices''\<rparr>, w1))"

section \<open>Auxiliary definitions of the proofs\<close>

text \<open>The months the loop of \<open>generateVestingSchedule\<close> visits, from a start month.\<close>

function vestingMonths :: "int \<Rightarrow> int \<Rightarrow> int \<Rightarrow> int list" where
  "vestingMonths f T m = (if 0 < f \<and> m \<le> T then m # vestingMonths f T (m + f) else [])"
  by pat_completeness auto
termination
  by (relation "measure (\<lambda>(f, T, m). nat (T + 1 - m))") auto

declare vestingMonths.simps [simp del]


text \<open>The number of vesting events as an integer, for a frequency that is not \<open>0\<close>.\<close>

definition eventCount :: "int \<Rightarrow> int \<Rightarrow> int \<Rightarrow> int" where
  "eventCount T c f = (if 0 < c then (T - c) div f + 1 else - ((- T) div f))"

text \<open>
  The share counts of a schedule for \<open>b\<close> shares per vesting and \<open>r\<close> remaining shares,
  both integers, and the schedule with these quantities.
\<close>

definition shareCounts :: "int \<Rightarrow> int \<Rightarrow> int \<Rightarrow> int \<Rightarrow> int \<Rightarrow> int list" where
  "shareCounts T c f b r =
     (if 0 < c then (b + r) # map (\<lambda>k. b) (vestingMonths f T (c + f))
      else map (\<lambda>k. if k = T then b + r else b) (vestingMonths f T f))"

definition scheduleOf ::
  "jsdate \<Rightarrow> int \<Rightarrow> int \<Rightarrow> int \<Rightarrow> int \<Rightarrow> int \<Rightarrow> VestingEvent list" where
  "scheduleOf g T c f b r =
     (if 0 < c
      then vestingEvent g c (num (b + r)) #
           map (\<lambda>k. vestingEvent g k (num b)) (vestingMonths f T (c + f))
      else map (\<lambda>k. vestingEvent g k (num (if k = T then b + r else b)))
             (vestingMonths f T f))"

text \<open>
  The schedule without a cliff as the spec words it: tranches at \<open>frequencyMonths\<close>,
  \<open>2 * frequencyMonths\<close>, ... up to \<open>totalMonths\<close>, each of \<open>base\<close> shares, but the final
  one, which has \<open>base + remainder\<close>; \<open>base\<close> is \<open>totalShares\<close> divided by the event
  count, rounded down, and the event count is \<open>totalMonths / frequencyMonths\<close>, rounded
  up.
\<close>

definition noCliffScheduleOfSpec :: "jsdate \<Rightarrow> int \<Rightarrow> int \<Rightarrow> int \<Rightarrow> VestingEvent list" where
  "noCliffScheduleOfSpec g totalShares totalMonths frequencyMonths =
     (let eventCount' = - ((- totalMonths) div frequencyMonths);
          base = totalShares div eventCount';
          remainder = totalShares - base * eventCount';
          months = vestingMonths frequencyMonths totalMonths frequencyMonths
      in map (\<lambda>m. vestingEvent g m (num (if m = last months then base + remainder else base)))
           months)"

text \<open>
  The sum of a list of numbers and of the quantities of a schedule: added up from \<open>0\<close>
  in the order of the list, each addition rounding, as \<open>reduce\<close> does.
\<close>

definition js_sum :: "jsnum list \<Rightarrow> jsnum" where
  "js_sum xs = foldl js_add (Fin 0) xs"

definition totalQuantity :: "VestingEvent list \<Rightarrow> jsnum" where
  "totalQuantity evs = js_sum (map quantity evs)"

text \<open>
  The total value as the spec words it: the sum over all tranches of the quantity times
  the price of the tranche if it is present, the fallback price otherwise.
\<close>

definition totalValueOfSpec :: "RSUGrant \<Rightarrow> jsnum \<Rightarrow> jsnum" where
  "totalValueOfSpec grant fallbackPrice =
     js_sum (map (\<lambda>event. js_mul (quantity event)
                   (case price event of None \<Rightarrow> fallbackPrice | Some p \<Rightarrow> p))
              (vestingSchedule grant))"

text \<open>
  What \<open>updateVestPrices\<close> is to leave alone: the tranches, one for one, keep their
  dates and quantities, and the grant keeps its date, quantity, grant price and symbol.
\<close>

definition sameGrantAndTranches :: "RSUGrant \<Rightarrow> RSUGrant \<Rightarrow> bool" where
  "sameGrantAndTranches grant grant' =
     (length (vestingSchedule grant') = length (vestingSchedule grant) \<and>
      map date (vestingSchedule grant') = map date (vestingSchedule grant) \<and>
      map quantity (vestingSchedule grant') = map quantity (vestingSchedule grant) \<and>
      grantDate grant' = grantDate grant \<and>
      grantQuantity grant' = grantQuantity grant \<and>
      grantPrice grant' = grantPrice grant \<and>
      symbol grant' = symbol grant)"

text \<open>A date at local midnight.\<close>

definition localMidnight :: "int \<Rightarrow> int \<Rightarrow> int \<Rightarrow> jsdate" where
  "localMidnight y m d = \<lparr>getFullYear = y, getMonth = m, getDate = d, timeOfDay = 0\<rparr>"

text \<open>A grant of ACME shares at a grant price of 10, with no price fetched yet.\<close>

definition acmeGrant :: "jsdate \<Rightarrow> jsnum \<Rightarrow> VestingEvent list \<Rightarrow> RSUGrant" where
  "acmeGrant d q schedule =
     \<lparr>grantDate = d, grantQuantity = q, grantPrice = Fin 10, symbol = ''ACME'',
      currentPrice = None, grantPriceError = None, vestingSchedule = schedule\<rparr>"

text \<open>
  An outside where the clock stands at the first of January 2024 and every request is
  rejected, and the state before any call.
\<close>

definition offline :: env where
  "offline = \<lparr>clock = (\<lambda>n. localMidnight 2024 0 1), network = (\<lambda>n r. Rejected)\<rparr>"

definition untouched :: world where
  "untouched = \<lparr>clockReads = 0, requests = [], stockPriceUpdates = []\<rparr>"

section \<open>Rounding\<close>

lemma pow2_powr: "pow2 e = 2 powr (of_int e)"
  by (simp add: pow2_def powr_int)

lemma pow2_pos [simp]: "0 < pow2 e"
  by (simp add: pow2_powr)

lemma pow2_add: "pow2 (a + b) = pow2 a * pow2 b"
  by (simp add: pow2_powr powr_add)

lemma pow2_nonneg_int: "0 \<le> e \<Longrightarrow> pow2 e = of_int (2 ^ nat e)"
  by (simp add: pow2_def)

lemma pow2_mono: "a \<le> b \<Longrightarrow> pow2 a \<le> pow2 b"
  by (simp add: pow2_powr)

lemma pow2_strict_mono: "a < b \<Longrightarrow> pow2 a < pow2 b"
  by (simp add: pow2_powr)

lemma roundHalfEven_int [simp]: "roundHalfEven (of_int m) = m"
  by (simp add: roundHalfEven_def)

lemma roundHalfEven_above:
  assumes "of_int N + 1 / 2 < y"
  shows "N + 1 \<le> roundHalfEven y"
proof -
  have "N \<le> \<lfloor>y\<rfloor>" using assms by (simp add: le_floor_iff)
  then show ?thesis
    using assms unfolding roundHalfEven_def Let_def
    by (cases "\<lfloor>y\<rfloor> = N") (auto simp: not_less)
qed

lemma roundHalfEven_below:
  assumes "y < of_int N - 1 / 2"
  shows "roundHalfEven y \<le> N - 1"
proof -
  have "y < of_int (N - 1) + 1 / 2" using assms by simp
  moreover have "y < of_int N" using assms by linarith
  then have "\<lfloor>y\<rfloor> \<le> N - 1" by (simp add: floor_less_iff)
  ultimately show ?thesis
    unfolding roundHalfEven_def Let_def
    by (cases "\<lfloor>y\<rfloor> = N - 1") (auto simp: not_less)
qed

lemma log2_bounds:
  assumes "x \<noteq> 0"
  shows "pow2 \<lfloor>log 2 \<bar>x\<bar>\<rfloor> \<le> \<bar>x\<bar>" and "\<bar>x\<bar> < pow2 (\<lfloor>log 2 \<bar>x\<bar>\<rfloor> + 1)"
proof -
  have x: "0 < \<bar>x\<bar>" using assms by simp
  have "\<lfloor>log 2 \<bar>x\<bar>\<rfloor> = \<lfloor>log 2 \<bar>x\<bar>\<rfloor>" by simp
  then have "2 powr (of_int \<lfloor>log 2 \<bar>x\<bar>\<rfloor>) \<le> \<bar>x\<bar> \<and> \<bar>x\<bar> < 2 powr (of_int (\<lfloor>log 2 \<bar>x\<bar>\<rfloor> + 1))"
    using floor_log_eq_powr_iff [of "\<bar>x\<bar>" 2 "\<lfloor>log 2 \<bar>x\<bar>\<rfloor>"] x by simp
  then show "pow2 \<lfloor>log 2 \<bar>x\<bar>\<rfloor> \<le> \<bar>x\<bar>" and "\<bar>x\<bar> < pow2 (\<lfloor>log 2 \<bar>x\<bar>\<rfloor> + 1)"
    by (simp_all add: pow2_powr)
qed

lemma floor_log2_eq:
  assumes "pow2 k \<le> \<bar>x\<bar>" and "\<bar>x\<bar> < pow2 (k + 1)"
  shows "\<lfloor>log 2 \<bar>x\<bar>\<rfloor> = k"
proof -
  have x: "0 < \<bar>x\<bar>" using assms(1) pow2_pos [of k] by linarith
  show ?thesis
    using floor_log_eq_powr_iff [of "\<bar>x\<bar>" 2 k] x assms by (simp add: pow2_powr)
qed

lemma round64_exact:
  assumes "x / pow2 (exponent64 x) = of_int m" and "\<bar>x\<bar> < 2 ^ 1024"
  shows "round64 x = Fin x"
proof (cases "x = 0")
  case True
  then show ?thesis by (simp add: round64_def)
next
  case False
  have "of_int m * pow2 (exponent64 x) = x"
    using assms(1) pow2_pos [of "exponent64 x"] by (simp add: field_simps)
  with False assms show ?thesis
    by (simp add: round64_def Let_def)
qed

lemma exponent64_int:
  assumes "n \<noteq> 0" and "\<bar>n\<bar> \<le> 2 ^ 53"
  shows "exponent64 (of_int n) = \<lfloor>log 2 \<bar>of_int n\<bar>\<rfloor> - 52"
    and "0 \<le> \<lfloor>log 2 \<bar>of_int n :: real\<bar>\<rfloor>" and "\<lfloor>log 2 \<bar>of_int n :: real\<bar>\<rfloor> \<le> 53"
proof -
  define k where "k = \<lfloor>log 2 \<bar>of_int n :: real\<bar>\<rfloor>"
  have x: "(of_int n :: real) \<noteq> 0" using assms by simp
  have lo: "pow2 k \<le> \<bar>of_int n\<bar>" and hi: "\<bar>of_int n\<bar> < pow2 (k + 1)"
    unfolding k_def using log2_bounds [OF x] by simp_all
  have "1 \<le> \<bar>of_int n :: real\<bar>" using assms(1) by (simp flip: of_int_abs)
  have k0: "0 \<le> k"
  proof (rule ccontr)
    assume "\<not> 0 \<le> k"
    then have "pow2 (k + 1) \<le> pow2 0" by (intro pow2_mono) simp
    with hi \<open>1 \<le> \<bar>of_int n :: real\<bar>\<close> show False by (simp add: pow2_def)
  qed
  have "\<bar>of_int n :: real\<bar> \<le> 2 ^ 53"
    using assms(2) by (metis of_int_abs of_int_le_iff of_int_numeral of_int_power)
  have k53: "k \<le> 53"
  proof (rule ccontr)
    assume "\<not> k \<le> 53"
    then have "pow2 54 \<le> pow2 k" by (intro pow2_mono) simp
    with lo \<open>\<bar>of_int n :: real\<bar> \<le> 2 ^ 53\<close> show False by (simp add: pow2_def)
  qed
  show "exponent64 (of_int n) = \<lfloor>log 2 \<bar>of_int n\<bar>\<rfloor> - 52"
    using k0 by (simp add: exponent64_def k_def)
  show "0 \<le> \<lfloor>log 2 \<bar>of_int n :: real\<bar>\<rfloor>" using k0 by (simp add: k_def)
  show "\<lfloor>log 2 \<bar>of_int n :: real\<bar>\<rfloor> \<le> 53" using k53 by (simp add: k_def)
qed

lemma round64_int:
  assumes "\<bar>n\<bar> \<le> 2 ^ 53"
  shows "round64 (of_int n) = Fin (of_int n)"
proof (cases "n = 0")
  case True
  then show ?thesis by (simp add: round64_def)
next
  case False
  define k where "k = \<lfloor>log 2 \<bar>of_int n :: real\<bar>\<rfloor>"
  have e: "exponent64 (of_int n) = k - 52" and k0: "0 \<le> k" and k53: "k \<le> 53"
    using exponent64_int [OF False assms] by (simp_all add: k_def)
  have big: "\<bar>of_int n :: real\<bar> < 2 ^ 1024"
  proof -
    have "\<bar>of_int n :: real\<bar> \<le> 2 ^ 53"
      using assms by (metis of_int_abs of_int_le_iff of_int_numeral of_int_power)
    also have "\<dots> < 2 ^ 1024" by simp
    finally show ?thesis .
  qed
  show ?thesis
  proof (cases "k \<le> 52")
    case True
    have "of_int n / pow2 (k - 52) = of_int n * pow2 (52 - k)"
      using pow2_add [of "k - 52" "52 - k"] by (simp add: field_simps pow2_def)
    also have "\<dots> = of_int (n * 2 ^ nat (52 - k))"
      using True by (simp add: pow2_nonneg_int)
    finally have "of_int n / pow2 (exponent64 (of_int n)) = of_int (n * 2 ^ nat (52 - k))"
      by (simp only: e)
    then show ?thesis using big by (rule round64_exact)
  next
    case False
    with k53 have k: "k = 53" by simp
    have x: "(of_int n :: real) \<noteq> 0" using \<open>n \<noteq> 0\<close> by simp
    have "pow2 53 \<le> \<bar>of_int n\<bar>" using log2_bounds(1) [OF x] k by (simp add: k_def)
    then have "(2 :: real) ^ 53 \<le> of_int \<bar>n\<bar>" by (simp add: pow2_def)
    then have "2 ^ 53 \<le> \<bar>n\<bar>"
      by (metis of_int_le_iff of_int_numeral of_int_power)
    with assms have "\<bar>n\<bar> = 2 ^ 53" by simp
    then have "even n" by (metis even_abs_add_iff even_add even_numeral even_power zero_less_numeral
          abs_eq_iff' dvd_abs_iff pos2)
    then obtain h where h: "n = 2 * h" by (auto elim: evenE)
    have "of_int n / pow2 (k - 52) = of_int h"
      using k h by (simp add: pow2_def)
    then have "of_int n / pow2 (exponent64 (of_int n)) = of_int h"
      by (simp only: e)
    then show ?thesis using big by (rule round64_exact)
  qed
qed

lemma roundHalfEven_minus: "roundHalfEven (- y) = - roundHalfEven y"
proof (cases "y = of_int \<lfloor>y\<rfloor>")
  case True
  then have "roundHalfEven (- of_int \<lfloor>y\<rfloor>) = - roundHalfEven (of_int \<lfloor>y\<rfloor>)"
    by (metis of_int_minus roundHalfEven_int)
  with True show ?thesis by simp
next
  case False
  then have "of_int \<lfloor>y\<rfloor> < y" using of_int_floor_le [of y] by (metis order_less_le)
  moreover have "\<lceil>y\<rceil> = \<lfloor>y\<rfloor> + 1"
    using False by (simp only: ceiling_altdef if_False)
  then have f: "\<lfloor>- y\<rfloor> = - \<lfloor>y\<rfloor> - 1"
    by (simp only: floor_minus)
  ultimately show ?thesis
    unfolding roundHalfEven_def Let_def f by (auto simp: field_simps)
qed

lemma round64_minus: "round64 (- x) = js_neg (round64 x)"
  by (simp add: round64_def exponent64_def Let_def roundHalfEven_minus)

lemma round64_quotient_pos:
  fixes a b :: int
  assumes "0 < a" and "a < 2 ^ 53" and "0 < b" and "b \<le> 2 ^ 53" and "\<not> b dvd a"
  shows "\<exists>r. round64 (of_int a / of_int b) = Fin r \<and>
           \<lfloor>r\<rfloor> = \<lfloor>of_int a / of_int b :: real\<rfloor> \<and>
           \<lceil>r\<rceil> = \<lceil>of_int a / of_int b :: real\<rceil>"
proof -
  define q :: real where "q = of_int a / of_int b"
  define k where "k = a div b"
  define kk where "kk = \<lfloor>log 2 \<bar>q\<bar>\<rfloor>"
  have q0: "0 < q" using assms by (simp add: q_def)
  then have qabs: "\<bar>q\<bar> = q" by simp
  have lo: "pow2 kk \<le> q" and hi: "q < pow2 (kk + 1)"
    using log2_bounds [of q] q0 unfolding kk_def qabs by simp_all
  have br: "(0 :: real) < of_int b" using assms by simp
  have "a mod b \<noteq> 0" using assms(5) by (simp add: dvd_eq_mod_eq_0)
  then have m1: "1 \<le> a mod b" and m2: "a mod b \<le> b - 1"
    using assms(3) pos_mod_sign [of b a] pos_mod_bound [of b a] by linarith+
  have a_eq: "of_int a = of_int k * of_int b + (of_int (a mod b) :: real)"
    unfolding k_def by (metis of_int_add of_int_mult div_mult_mod_eq)
  have q_eq: "q = of_int k + of_int (a mod b) / of_int b"
    unfolding q_def a_eq using br by (simp add: field_simps)
  have gap_lo: "1 / of_int b \<le> q - of_int k"
    unfolding q_eq using m1 br by (simp add: field_simps)
  have gap_hi: "1 / of_int b \<le> of_int k + 1 - q"
    unfolding q_eq using m2 br by (simp add: field_simps)
  have k0: "0 \<le> k" unfolding k_def using assms by (simp add: pos_imp_zdiv_nonneg_iff)
  have ar: "(of_int a :: real) < 2 ^ 53"
    using assms(2) by (metis of_int_less_iff of_int_numeral of_int_power)
  have bre: "(of_int b :: real) \<le> 2 ^ 53"
    using assms(4) by (metis of_int_le_iff of_int_numeral of_int_power)
  have "1 \<le> (of_int a :: real)" using assms(1) by simp
  have q_hi: "q < 2 ^ 53"
  proof -
    have "q \<le> of_int a" unfolding q_def using br \<open>1 \<le> of_int a\<close> assms(3)
      by (simp add: field_simps mult_le_cancel_left1)
    with ar show ?thesis by simp
  qed
  have q_lo: "pow2 (- 53) \<le> q"
  proof -
    have "1 / 2 ^ 53 \<le> 1 / (of_int b :: real)" using br bre by (simp add: field_simps)
    also have "\<dots> \<le> q" unfolding q_def using \<open>1 \<le> of_int a\<close> br by (simp add: field_simps)
    finally show ?thesis by (simp add: pow2_def)
  qed
  have kk_hi: "kk \<le> 52"
  proof (rule ccontr)
    assume "\<not> kk \<le> 52"
    then have "pow2 53 \<le> pow2 kk" by (intro pow2_mono) simp
    with lo q_hi show False by (simp add: pow2_def)
  qed
  have kk_lo: "- 53 \<le> kk"
  proof (rule ccontr)
    assume "\<not> - 53 \<le> kk"
    then have "pow2 (kk + 1) \<le> pow2 (- 53)" by (intro pow2_mono) simp
    with hi q_lo show False by simp
  qed
  define e where "e = kk - 52"
  have "max (kk - 52) (- 1074) = kk - 52" using kk_lo by linarith
  then have e: "exponent64 q = e" by (simp only: exponent64_def kk_def e_def)
  have e0: "e \<le> 0" using kk_hi by (simp add: e_def)
  define P where "P = (2 :: int) ^ nat (- e)"
  have P: "pow2 (- e) = of_int P" using e0 by (simp add: pow2_nonneg_int P_def)
  have inv: "pow2 e * pow2 (- e) = 1" using pow2_add [of e "- e"] by (simp add: pow2_def)
  have Ppos: "(0 :: real) < of_int P" using P pow2_pos [of "- e"] by simp
  have "pow2 e * of_int P = 1" using inv P by simp
  then have "inverse (pow2 e) = of_int P" by (rule inverse_unique)
  then have y: "q / pow2 e = q * of_int P" by (simp add: divide_inverse)
  have b_lt: "of_int b < 2 * (of_int P :: real)"
  proof -
    have "of_int b * pow2 kk \<le> of_int b * q" using lo br by simp
    also have "\<dots> = of_int a" unfolding q_def using br by simp
    also have "\<dots> < pow2 53" using ar by (simp add: pow2_def)
    also have "\<dots> = pow2 (1 - e) * pow2 kk"
      using pow2_add [of "1 - e" kk] by (simp add: e_def)
    finally have "of_int b < pow2 (1 - e)" using pow2_pos [of kk] by simp
    also have "pow2 (1 - e) = 2 * pow2 (- e)"
      using pow2_add [of 1 "- e"] by (simp add: pow2_def)
    finally show ?thesis using P by simp
  qed
  define t :: real where "t = of_int P / of_int b"
  from b_lt have half: "1 / 2 < t"
    using br by (simp add: t_def field_simps)
  have "1 / of_int b * of_int P \<le> (q - of_int k) * of_int P"
    using gap_lo Ppos by (intro mult_right_mono) simp_all
  then have "t \<le> q * of_int P - of_int k * of_int P"
    by (simp add: t_def left_diff_distrib)
  with half have "of_int k * of_int P + 1 / 2 < q * of_int P" by linarith
  then have above: "of_int (k * P) + 1 / 2 < q * of_int P" by simp
  have "1 / of_int b * of_int P \<le> (of_int k + 1 - q) * of_int P"
    using gap_hi Ppos by (intro mult_right_mono) simp_all
  then have "t \<le> (of_int k + 1) * of_int P - q * of_int P"
    by (simp add: t_def left_diff_distrib)
  with half have "q * of_int P < (of_int k + 1) * of_int P - 1 / 2" by linarith
  then have below: "q * of_int P < of_int ((k + 1) * P) - 1 / 2" by simp
  define m where "m = roundHalfEven (q / pow2 e)"
  have m_lo: "k * P + 1 \<le> m"
    unfolding m_def y using above by (rule roundHalfEven_above)
  have m_hi: "m \<le> (k + 1) * P - 1"
    unfolding m_def y using below by (rule roundHalfEven_below)
  define r where "r = of_int m * pow2 e"
  have Pe: "of_int P * pow2 e = 1" using inv P by (simp add: mult.commute)
  have "of_int (k * P + 1) * pow2 e \<le> r"
    unfolding r_def using m_lo pow2_pos [of e] by (simp del: of_int_add of_int_mult)
  moreover have "of_int (k * P + 1) * pow2 e = of_int k + pow2 e"
    using Pe by (simp add: algebra_simps)
  ultimately have r_lo: "of_int k < r" using pow2_pos [of e] by linarith
  have "r \<le> of_int ((k + 1) * P - 1) * pow2 e"
    unfolding r_def using m_hi pow2_pos [of e] by (simp del: of_int_add of_int_mult of_int_diff)
  moreover have "of_int ((k + 1) * P - 1) * pow2 e = of_int k + 1 - pow2 e"
    using Pe by (simp add: algebra_simps)
  ultimately have r_hi: "r < of_int k + 1" using pow2_pos [of e] by linarith
  have "0 < 1 / (of_int b :: real)" using br by simp
  with gap_lo have kq: "of_int k < q" by linarith
  with q_hi have "(of_int k :: real) < of_int (2 ^ 53)" by simp
  then have "k < 2 ^ 53" by (simp only: of_int_less_iff)
  then have "k + 1 \<le> 2 ^ 53" by simp
  then have "(of_int (k + 1) :: real) \<le> of_int (2 ^ 53)" by (simp only: of_int_le_iff)
  then have "of_int k + 1 \<le> (2 :: real) ^ 53" by simp
  then have "\<bar>r\<bar> < 2 ^ 1024"
    using r_lo r_hi k0 by (simp add: abs_if)
  then have "round64 q = Fin r"
    using q0 by (simp add: round64_def e Let_def r_def m_def)
  moreover have "\<lfloor>r\<rfloor> = k" using r_lo r_hi by (intro floor_unique) simp_all
  moreover have "\<lceil>r\<rceil> = k + 1" using r_lo r_hi by (intro ceiling_unique) simp_all
  moreover have "\<lfloor>q\<rfloor> = k" unfolding q_def k_def by (rule floor_divide_of_int_eq)
  moreover have "q < of_int k + 1" using \<open>\<lfloor>q\<rfloor> = k\<close> by linarith
  then have "\<lceil>q\<rceil> = k + 1" using kq by (intro ceiling_unique) simp_all
  ultimately show ?thesis unfolding q_def by simp
qed

lemma round64_quotient:
  fixes a b :: int
  assumes "\<bar>a\<bar> < 2 ^ 53" and "b \<noteq> 0" and "\<bar>b\<bar> \<le> 2 ^ 53"
  shows "\<exists>r. round64 (of_int a / of_int b) = Fin r \<and>
           \<lfloor>r\<rfloor> = a div b \<and> \<lceil>r\<rceil> = - ((- a) div b)"
proof -
  have fl: "\<lfloor>of_int a / of_int b :: real\<rfloor> = a div b" by (rule floor_divide_of_int_eq)
  have ce: "\<lceil>of_int a / of_int b :: real\<rceil> = - ((- a) div b)" by (rule ceiling_divide_eq_div)
  show ?thesis
  proof (cases "b dvd a")
    case True
    then have q: "(of_int a / of_int b :: real) = of_int (a div b)"
      using assms(2) by (simp add: real_of_int_div)
    have "\<bar>a div b\<bar> \<le> \<bar>a\<bar>"
      using True assms(2) by (metis abs_div abs_ge_zero div_by_1 dvd_abs_iff abs_dvd_iff
          zdiv_mono2 zero_less_abs_iff int_one_le_iff_zero_less div_0 abs_zero order_refl
          linorder_not_less less_le)
    with assms(1) have "\<bar>a div b\<bar> \<le> 2 ^ 53" by simp
    then have "round64 (of_int (a div b)) = Fin (of_int (a div b))" by (rule round64_int)
    moreover have "- ((- a) div b) = a div b" using True by (simp add: dvd_neg_div)
    ultimately show ?thesis unfolding q by simp
  next
    case False
    then have a0: "0 < \<bar>a\<bar>" by auto
    have b0: "0 < \<bar>b\<bar>" using assms(2) by simp
    have nd: "\<not> \<bar>b\<bar> dvd \<bar>a\<bar>" using False by simp
    from round64_quotient_pos [OF a0 assms(1) b0 assms(3) nd] obtain r where
      r: "round64 (of_int \<bar>a\<bar> / of_int \<bar>b\<bar>) = Fin r"
        "\<lfloor>r\<rfloor> = \<lfloor>of_int \<bar>a\<bar> / of_int \<bar>b\<bar> :: real\<rfloor>"
        "\<lceil>r\<rceil> = \<lceil>of_int \<bar>a\<bar> / of_int \<bar>b\<bar> :: real\<rceil>"
      by blast
    show ?thesis
    proof (cases "(0 \<le> a) = (0 \<le> b)")
      case True
      then have "(of_int \<bar>a\<bar> / of_int \<bar>b\<bar> :: real) = of_int a / of_int b"
        by (auto simp: abs_if)
      with r fl ce show ?thesis by simp
    next
      case False
      then have eq: "(of_int a / of_int b :: real) = - (of_int \<bar>a\<bar> / of_int \<bar>b\<bar>)"
        by (auto simp: abs_if)
      have "round64 (of_int a / of_int b) = Fin (- r)"
        unfolding eq round64_minus r(1) by simp
      moreover have "\<lfloor>- r\<rfloor> = \<lfloor>of_int a / of_int b :: real\<rfloor>"
        unfolding eq floor_minus r(3) ..
      moreover have "\<lceil>- r\<rceil> = \<lceil>of_int a / of_int b :: real\<rceil>"
        unfolding eq ceiling_minus r(2) ..
      ultimately show ?thesis using fl ce by simp
    qed
  qed
qed

lemma round64_normal:
  assumes "pow2 k \<le> \<bar>x\<bar>" and "\<bar>x\<bar> < pow2 (k + 1)" and "- 1022 \<le> k"
    and "\<bar>of_int (roundHalfEven (x / pow2 (k - 52))) * pow2 (k - 52)\<bar> < 2 ^ 1024"
  shows "round64 x = Fin (of_int (roundHalfEven (x / pow2 (k - 52))) * pow2 (k - 52))"
proof -
  have "\<lfloor>log 2 \<bar>x\<bar>\<rfloor> = k" using assms(1,2) by (rule floor_log2_eq)
  moreover have "max (k - 52) (- 1074) = k - 52" using assms(3) by linarith
  ultimately have e: "exponent64 x = k - 52" by (simp only: exponent64_def)
  have "0 < \<bar>x\<bar>" using assms(1) pow2_pos [of k] by linarith
  then have "x \<noteq> 0" by simp
  then show ?thesis using assms(4) by (simp add: round64_def e Let_def)
qed

lemma round64_overflow:
  assumes "pow2 k \<le> \<bar>x\<bar>" and "\<bar>x\<bar> < pow2 (k + 1)" and "- 1022 \<le> k"
    and "2 ^ 1024 \<le> \<bar>of_int (roundHalfEven (x / pow2 (k - 52))) * pow2 (k - 52)\<bar>"
  shows "round64 x = (if 0 < x then PosInf else NegInf)"
proof -
  have "\<lfloor>log 2 \<bar>x\<bar>\<rfloor> = k" using assms(1,2) by (rule floor_log2_eq)
  moreover have "max (k - 52) (- 1074) = k - 52" using assms(3) by linarith
  ultimately have e: "exponent64 x = k - 52" by (simp only: exponent64_def)
  have "0 < \<bar>x\<bar>" using assms(1) pow2_pos [of k] by linarith
  then have "x \<noteq> 0" by simp
  then show ?thesis using assms(4) by (simp add: round64_def e Let_def)
qed

lemma pow2_nonneg: "0 \<le> pow2 e"
  using pow2_pos [of e] by (simp only: less_imp_le)

lemma pow2_neg_nat: "pow2 (- int j) = 1 / 2 ^ j"
  by (simp add: pow2_def)

text \<open>
  A whole number of \<open>2^j\<close>-ths is a double, when the whole number is safe and \<open>j\<close> is
  within the exponents of the normal numbers.
\<close>

lemma round64_dyadic:
  assumes "\<bar>n\<bar> \<le> 2 ^ 53" and "j \<le> 1022"
  shows "round64 (of_int n / 2 ^ j) = Fin (of_int n / 2 ^ j)"
proof (cases "n = 0")
  case True
  then show ?thesis by (simp add: round64_def)
next
  case False
  define x :: real where "x = of_int n / 2 ^ j"
  define k where "k = \<lfloor>log 2 \<bar>of_int n :: real\<bar>\<rfloor>"
  have k0: "0 \<le> k" and k53: "k \<le> 53"
    using exponent64_int [OF False assms(1)] by (simp_all add: k_def pow2_nonneg)
  have n0: "(of_int n :: real) \<noteq> 0" using False by simp
  have xn: "x = of_int n * pow2 (- int j)" by (simp add: x_def pow2_neg_nat)
  have ax: "\<bar>x\<bar> = \<bar>of_int n\<bar> * pow2 (- int j)"
    using pow2_pos [of "- int j"] by (simp add: xn abs_mult abs_of_pos)
  have lo: "pow2 (k - int j) \<le> \<bar>x\<bar>"
  proof -
    have "pow2 k * pow2 (- int j) \<le> \<bar>of_int n\<bar> * pow2 (- int j)"
      using log2_bounds(1) [OF n0] pow2_pos [of "- int j"]
      by (intro mult_right_mono) (simp_all add: k_def pow2_nonneg)
    moreover have "pow2 (k - int j) = pow2 k * pow2 (- int j)"
    proof -
      have "k - int j = k + (- int j)" by simp
      then show ?thesis by (simp only: pow2_add)
    qed
    ultimately show ?thesis by (simp only: ax)
  qed
  have hi: "\<bar>x\<bar> < pow2 (k - int j + 1)"
  proof -
    have "\<bar>of_int n\<bar> * pow2 (- int j) < pow2 (k + 1) * pow2 (- int j)"
      using log2_bounds(2) [OF n0] pow2_pos [of "- int j"]
      by (intro mult_strict_right_mono) (simp_all add: k_def pow2_nonneg)
    moreover have "pow2 (k - int j + 1) = pow2 (k + 1) * pow2 (- int j)"
    proof -
      have "k - int j + 1 = (k + 1) + (- int j)" by simp
      then show ?thesis by (simp only: pow2_add)
    qed
    ultimately show ?thesis by (simp only: ax)
  qed
  have fl: "\<lfloor>log 2 \<bar>x\<bar>\<rfloor> = k - int j" using lo hi by (rule floor_log2_eq)
  have e: "exponent64 x = k - int j - 52"
    using k0 assms(2) by (simp add: exponent64_def fl)
  have big: "\<bar>x\<bar> < 2 ^ 1024"
  proof -
    have "pow2 (- int j) \<le> pow2 0" by (intro pow2_mono) simp
    then have "pow2 (- int j) \<le> 1" by (simp add: pow2_def)
    then have "\<bar>of_int n\<bar> * pow2 (- int j) \<le> \<bar>of_int n :: real\<bar> * 1"
      by (intro mult_left_mono) simp_all
    moreover have "\<bar>of_int n :: real\<bar> \<le> 2 ^ 53"
      using assms(1) by (metis of_int_abs of_int_le_iff of_int_numeral of_int_power)
    ultimately have "\<bar>x\<bar> \<le> 2 ^ 53" by (simp add: ax)
    also have "\<dots> < (2 :: real) ^ 1024" by simp
    finally show ?thesis .
  qed
  have q: "x / pow2 (k - int j - 52) = of_int n * pow2 (52 - k)"
  proof -
    define d where "d = pow2 (k - int j - 52)"
    have d0: "d \<noteq> 0" unfolding d_def using pow2_pos [of "k - int j - 52"] by linarith
    have "- int j = (k - int j - 52) + (52 - k)" by simp
    then have "pow2 (- int j) = d * pow2 (52 - k)"
      unfolding d_def by (simp only: pow2_add)
    then have "x / d = of_int n * (d * pow2 (52 - k)) / d" by (simp only: xn)
    also have "\<dots> = of_int n * pow2 (52 - k)" using d0 by simp
    finally show ?thesis by (simp only: d_def)
  qed
  have "\<exists>m. x / pow2 (exponent64 x) = of_int m"
  proof (cases "k \<le> 52")
    case True
    have "of_int n * pow2 (52 - k) = of_int (n * 2 ^ nat (52 - k))"
      using True by (simp add: pow2_nonneg_int)
    then show ?thesis unfolding e q by blast
  next
    case False
    with k53 have k: "k = 53" by simp
    have "pow2 53 \<le> \<bar>of_int n\<bar>" using log2_bounds(1) [OF n0] k by (simp add: k_def)
    then have "(2 :: real) ^ 53 \<le> of_int \<bar>n\<bar>" by (simp add: pow2_def)
    then have "2 ^ 53 \<le> \<bar>n\<bar>"
      by (metis of_int_le_iff of_int_numeral of_int_power)
    with assms have "\<bar>n\<bar> = 2 ^ 53" by simp
    then have "even n" by (metis even_abs_add_iff even_add even_numeral even_power zero_less_numeral
          abs_eq_iff' dvd_abs_iff pos2)
    then obtain h where h: "n = 2 * h" by (auto elim: evenE)
    have "of_int n * pow2 (52 - k) = of_int h"
      using k h by (simp add: pow2_def)
    then show ?thesis unfolding e q by blast
  qed
  then obtain m where "x / pow2 (exponent64 x) = of_int m" by blast
  then have "round64 x = Fin x" using big by (rule round64_exact)
  then show ?thesis by (simp add: x_def)
qed

section \<open>Arithmetic on integers\<close>

lemma num_safe: "\<bar>i\<bar> \<le> 2 ^ 53 \<Longrightarrow> num i = Fin (of_int i)"
  by (simp add: num_def round64_int)

lemma round64_numeral [simp]:
  "numeral k \<le> (2 :: int) ^ 53 \<Longrightarrow> round64 (numeral k) = Fin (numeral k)"
  using round64_int [of "numeral k"] by simp

lemma round64_neg_numeral [simp]:
  "numeral k \<le> (2 :: int) ^ 53 \<Longrightarrow> round64 (- numeral k) = Fin (- numeral k)"
  using round64_int [of "- numeral k"] by simp

lemma round64_0 [simp]: "round64 0 = Fin 0"
  by (simp add: round64_def)

lemma round64_1 [simp]: "round64 1 = Fin 1" "round64 (- 1) = Fin (- 1)"
  using round64_int [of 1] round64_int [of "- 1"] by simp_all

lemma num_numeral [simp]:
  "numeral k \<le> (2 :: int) ^ 53 \<Longrightarrow> num (numeral k) = Fin (numeral k)"
  "numeral k \<le> (2 :: int) ^ 53 \<Longrightarrow> num (- numeral k) = Fin (- numeral k)"
  "num 0 = Fin 0" "num 1 = Fin 1" "num (- 1) = Fin (- 1)"
  using num_safe [of "numeral k"] num_safe [of "- numeral k"] num_safe [of 0] num_safe [of 1]
    num_safe [of "- 1"]
  by simp_all

lemma num_add:
  assumes "\<bar>a\<bar> \<le> 2 ^ 53" and "\<bar>b\<bar> \<le> 2 ^ 53" and "\<bar>a + b\<bar> \<le> 2 ^ 53"
  shows "js_add (num a) (num b) = num (a + b)"
  using assms round64_int [of "a + b"] by (simp add: num_safe)

lemma num_sub:
  assumes "\<bar>a\<bar> \<le> 2 ^ 53" and "\<bar>b\<bar> \<le> 2 ^ 53" and "\<bar>a - b\<bar> \<le> 2 ^ 53"
  shows "js_sub (num a) (num b) = num (a - b)"
  using assms round64_int [of "a - b"] by (simp add: num_safe js_sub_def)

lemma num_mul:
  assumes "\<bar>a\<bar> \<le> 2 ^ 53" and "\<bar>b\<bar> \<le> 2 ^ 53" and "\<bar>a * b\<bar> \<le> 2 ^ 53"
  shows "js_mul (num a) (num b) = num (a * b)"
  using assms round64_int [of "a * b"] by (simp add: num_safe)

lemma abs_div_le:
  fixes a b :: int
  shows "\<bar>a div b\<bar> \<le> \<bar>a\<bar>" and "\<bar>- ((- a) div b)\<bar> \<le> \<bar>a\<bar>"
proof -
  have *: "\<bar>x div b\<bar> \<le> \<bar>x\<bar>" for x :: int
  proof (cases "b = 0")
    case True
    then show ?thesis by simp
  next
    case False
    define q :: real where "q = of_int x / of_int b"
    have "1 \<le> \<bar>of_int b :: real\<bar>" using False by (simp flip: of_int_abs)
    then have "\<bar>of_int x :: real\<bar> / \<bar>of_int b\<bar> \<le> \<bar>of_int x\<bar> / 1"
      by (intro divide_left_mono) simp_all
    then have "\<bar>q\<bar> \<le> of_int \<bar>x\<bar>" by (simp add: q_def abs_divide)
    then have lo: "of_int (- \<bar>x\<bar>) \<le> q" and hi: "q < of_int \<bar>x\<bar> + 1"
      by linarith+
    have "- \<bar>x\<bar> \<le> \<lfloor>q\<rfloor>" using lo by (simp only: le_floor_iff)
    moreover have "\<lfloor>q\<rfloor> \<le> \<bar>x\<bar>" using hi by (simp only: floor_le_iff)
    moreover have "\<lfloor>q\<rfloor> = x div b" unfolding q_def by (rule floor_divide_of_int_eq)
    ultimately show ?thesis by (simp add: abs_le_iff)
  qed
  show "\<bar>a div b\<bar> \<le> \<bar>a\<bar>" by (rule *)
  show "\<bar>- ((- a) div b)\<bar> \<le> \<bar>a\<bar>" using * [of "- a"] by simp
qed

lemma num_floor_div:
  assumes "\<bar>a\<bar> < 2 ^ 53" and "b \<noteq> 0" and "\<bar>b\<bar> \<le> 2 ^ 53"
  shows "js_floor (js_div (num a) (num b)) = num (a div b)"
proof -
  from round64_quotient [OF assms] obtain r where
    "round64 (of_int a / of_int b) = Fin r" "\<lfloor>r\<rfloor> = a div b"
    by blast
  moreover have "\<bar>a div b\<bar> \<le> 2 ^ 53" using abs_div_le(1) [of a b] assms(1) by simp
  ultimately show ?thesis using assms by (simp add: num_safe)
qed

lemma num_ceil_div:
  assumes "\<bar>a\<bar> < 2 ^ 53" and "b \<noteq> 0" and "\<bar>b\<bar> \<le> 2 ^ 53"
  shows "js_ceil (js_div (num a) (num b)) = num (- ((- a) div b))"
proof -
  from round64_quotient [OF assms] obtain r where
    "round64 (of_int a / of_int b) = Fin r" "\<lceil>r\<rceil> = - ((- a) div b)"
    by blast
  moreover have "\<bar>- ((- a) div b)\<bar> \<le> 2 ^ 53" using abs_div_le(2) [of a b] assms(1) by simp
  ultimately show ?thesis using assms by (simp add: num_safe)
qed

text \<open>The same for literals, as the evaluation of a concrete schedule meets them.\<close>

lemma floor_quotient_numeral [simp]:
  assumes "numeral a < (2 :: int) ^ 53" and "numeral b \<le> (2 :: int) ^ 53"
  shows "js_floor (round64 (numeral a / numeral b)) = Fin (of_int (numeral a div numeral b))"
    and "js_floor (round64 (- (numeral a / numeral b))) =
           Fin (of_int ((- numeral a) div numeral b))"
    and "js_ceil (round64 (numeral a / numeral b)) =
           Fin (of_int (- ((- numeral a) div numeral b)))"
    and "js_ceil (round64 (- (numeral a / numeral b))) =
           Fin (of_int (- (numeral a div numeral b)))"
proof -
  from assms round64_quotient [of "numeral a" "numeral b"] obtain r where
    r: "round64 (numeral a / numeral b) = Fin r" "\<lfloor>r\<rfloor> = numeral a div numeral b"
      "\<lceil>r\<rceil> = - ((- numeral a) div numeral b)"
    by auto
  from assms round64_quotient [of "- numeral a" "numeral b"] obtain r' where
    r': "round64 (- (numeral a / numeral b)) = Fin r'" "\<lfloor>r'\<rfloor> = (- numeral a) div numeral b"
      "\<lceil>r'\<rceil> = - (numeral a div numeral b)"
    by auto
  show "js_floor (round64 (numeral a / numeral b)) = Fin (of_int (numeral a div numeral b))"
    using r by simp
  show "js_floor (round64 (- (numeral a / numeral b))) =
           Fin (of_int ((- numeral a) div numeral b))"
    using r' by simp
  show "js_ceil (round64 (numeral a / numeral b)) =
           Fin (of_int (- ((- numeral a) div numeral b)))"
    using r by simp
  show "js_ceil (round64 (- (numeral a / numeral b))) =
           Fin (of_int (- (numeral a div numeral b)))"
    using r' by simp
qed

lemma floor_quotient_one [simp]:
  assumes "numeral b \<le> (2 :: int) ^ 53"
  shows "js_floor (round64 (1 / numeral b)) = Fin (of_int (1 div numeral b))"
    and "js_ceil (round64 (1 / numeral b)) = Fin (of_int (- ((- 1) div numeral b)))"
proof -
  from assms round64_quotient [of 1 "numeral b"] obtain r where
    r: "round64 (1 / numeral b) = Fin r" "\<lfloor>r\<rfloor> = 1 div numeral b"
      "\<lceil>r\<rceil> = - ((- 1) div numeral b)"
    by auto
  show "js_floor (round64 (1 / numeral b)) = Fin (of_int (1 div numeral b))"
    using r by simp
  show "js_ceil (round64 (1 / numeral b)) = Fin (of_int (- ((- 1) div numeral b)))"
    using r by simp
qed

text \<open>
  A price of \<open>n\<close> parts of \<open>2^j\<close>: the products with whole quantities and their sums are
  exact while they are safe.
\<close>

lemma dyadic_mul:
  assumes "\<bar>q\<bar> \<le> 2 ^ 53" and "\<bar>q * n\<bar> \<le> 2 ^ 53" and "j \<le> 1022"
  shows "js_mul (num q) (Fin (of_int n / 2 ^ j)) = Fin (of_int (q * n) / 2 ^ j)"
  using round64_dyadic [OF assms(2,3)] by (simp add: num_safe [OF assms(1)])

lemma dyadic_add:
  assumes "\<bar>a + b\<bar> \<le> 2 ^ 53" and "j \<le> 1022"
  shows "js_add (Fin (of_int a / 2 ^ j)) (Fin (of_int b / 2 ^ j)) = Fin (of_int (a + b) / 2 ^ j)"
  using round64_dyadic [OF assms] by (simp add: add_divide_distrib)

section \<open>The loop and the schedule it builds\<close>

text \<open>With a frequency above \<open>0\<close> the loop ends, and pushes one event per month visited.\<close>

lemma regularVesting_months:
  "0 < f \<Longrightarrow>
   regularVesting g c f T b r m acc =
     Some (acc @ map (\<lambda>k. vestingEvent g k
        (if c > 0 then b else if k = T then js_add b r else b)) (vestingMonths f T m))"
proof (induction f T m arbitrary: acc rule: vestingMonths.induct)
  case (1 f T m)
  show ?case
  proof (cases "m \<le> T")
    case True
    with 1 show ?thesis
      by (subst regularVesting.simps, subst vestingMonths.simps) simp
  next
    case False
    then show ?thesis
      by (subst regularVesting.simps, subst vestingMonths.simps) simp
  qed
qed

text \<open>
  With a frequency of \<open>0\<close> or below the loop, once entered, never ends: a call that
  returns had a frequency above \<open>0\<close> or did not enter the loop.
\<close>

lemma regularVesting_ends:
  assumes "regularVesting g c f T b r m acc = Some evs"
  shows "0 < f \<or> T < m"
proof (rule regularVesting.raw_induct
    [rotated 1, where P = "\<lambda>g c f T b r m acc evs. 0 < f \<or> T < m", OF assms])
  fix loop g c f T b r m acc evs
  assume IH: "\<And>g c f T b r m acc evs.
      loop g c f T b r m acc = Some evs \<Longrightarrow> 0 < f \<or> T < (m::int)"
    and step: "(if m \<le> T
       then loop g c f T b r (m + f)
              (acc @ [vestingEvent g m
                 (if 0 < c then b else if m = T then js_add b r else b)])
       else Some acc) = Some evs"
  show "0 < f \<or> T < m"
  proof (cases "m \<le> T")
    case True
    with step IH have "0 < f \<or> T < m + f" by simp
    with True show ?thesis by auto
  next
    case False
    then show ?thesis by simp
  qed
qed

lemma regularVesting_diverges:
  "f \<le> 0 \<Longrightarrow> m \<le> T \<Longrightarrow> regularVesting g c f T b r m acc = None"
  using regularVesting_ends [of g c f T b r m acc]
  by (cases "regularVesting g c f T b r m acc") auto

lemma length_vestingMonths:
  "0 < f \<Longrightarrow> int (length (vestingMonths f T m)) = max 0 ((T - m) div f + 1)"
proof (induction f T m rule: vestingMonths.induct)
  case (1 f T m)
  show ?case
  proof (cases "m \<le> T")
    case True
    then have "0 \<le> (T - m) div f" using 1(2) by (simp add: pos_imp_zdiv_nonneg_iff)
    moreover have "(T - (m + f) + f) div f = (T - (m + f)) div f + 1"
      using 1(2) by (intro div_add_self2) simp
    then have "(T - (m + f)) div f = (T - m) div f - 1" by simp
    ultimately show ?thesis using 1 True
      by (subst vestingMonths.simps) simp
  next
    case False
    then have "(T - m) div f < 0" using 1(2) by (intro div_neg_pos_less0) simp_all
    with False show ?thesis
      by (subst vestingMonths.simps) simp
  qed
qed

lemma dvd_diff_self: "(f::int) dvd (T - f) \<longleftrightarrow> f dvd T"
  by (metis dvd_diff_commute dvd_add_triv_right_iff diff_add_cancel dvd_minus_iff minus_diff_eq)

text \<open>
  Without a cliff the remaining shares are handed out once if the loop reaches
  \<open>totalVestingMonths\<close> exactly, and not at all otherwise.
\<close>

lemma sum_vestingMonths_nocliff:
  "0 < f \<Longrightarrow>
   sum_list (map (\<lambda>k. if k = T then b + r else b) (vestingMonths f T m)) =
     int (length (vestingMonths f T m)) * b + (if m \<le> T \<and> f dvd (T - m) then r else 0)"
proof (induction f T m rule: vestingMonths.induct)
  case (1 f T m)
  show ?case
  proof (cases "m \<le> T")
    case True
    have d: "f dvd (T - (m + f)) \<longleftrightarrow> f dvd (T - m)"
      using dvd_diff_self [of f "T - m"] by (simp add: algebra_simps)
    have e: "m = T \<Longrightarrow> \<not> m + f \<le> T" using 1(2) by simp
    have g: "m \<noteq> T \<Longrightarrow> f dvd (T - m) \<Longrightarrow> m + f \<le> T"
      using 1(2) True by (metis zdvd_imp_le diff_gt_0_iff_gt order_le_less le_diff_eq add.commute)
    show ?thesis using 1 True d e g
      by (subst (1 2) vestingMonths.simps) (auto simp: algebra_simps)
  next
    case False
    then show ?thesis
      by (subst (1 2) vestingMonths.simps) simp
  qed
qed

lemma quantity_vestingEvent [simp]: "quantity (vestingEvent g k q) = q"
  by (simp add: vestingEvent_def)

lemma date_vestingEvent [simp]: "date (vestingEvent g k q) = addMonths g k"
  by (simp add: vestingEvent_def)

lemma price_vestingEvent [simp]: "price (vestingEvent g k q) = None"
  by (simp add: vestingEvent_def)

text \<open>
Evaluation of the schedule on concrete inputs.
\<close>

lemmas schedule_eval =
  generateVestingSchedule_def totalVestingEvents_def regularVesting.simps
  js_sub_def signed_inf_def Let_def totalQuantity_def js_sum_def

lemma totalVestingEvents_num:
  assumes "f \<noteq> 0" and "\<bar>f\<bar> \<le> 2 ^ 53" and "\<bar>T - c\<bar> < 2 ^ 53" and "\<bar>T\<bar> < 2 ^ 53"
  shows "totalVestingEvents T c f = num (eventCount T c f)"
proof (cases "0 < c")
  case True
  have "\<bar>(T - c) div f\<bar> \<le> \<bar>T - c\<bar>" by (rule abs_div_le)
  with assms(3) have "\<bar>(T - c) div f\<bar> \<le> 2 ^ 53" and "\<bar>(T - c) div f + 1\<bar> \<le> 2 ^ 53"
    by linarith+
  then have "js_add (num ((T - c) div f)) (num 1) = num ((T - c) div f + 1)"
    by (intro num_add) simp_all
  with True assms show ?thesis
    by (simp add: totalVestingEvents_def eventCount_def num_floor_div del: num_numeral)
next
  case False
  with assms show ?thesis
    by (simp add: totalVestingEvents_def eventCount_def num_ceil_div)
qed

lemma eventCount_pos:
  assumes "0 < y" and "0 \<le> c" and "1 \<le> f" and "c \<le> y * 12"
  shows "1 \<le> eventCount (y * 12) c f"
proof (cases "0 < c")
  case True
  then have "0 \<le> (y * 12 - c) div f" using assms by (simp add: pos_imp_zdiv_nonneg_iff)
  with True show ?thesis by (simp add: eventCount_def)
next
  case False
  have "0 < \<lceil>(of_int (y * 12) :: real) / of_int f\<rceil>"
    using assms by (simp add: divide_pos_pos)
  then have "0 < - ((- (y * 12)) div f)"
    by (simp only: ceiling_divide_eq_div)
  with False show ?thesis by (simp add: eventCount_def)
qed

lemma eventCount_le:
  assumes "1 \<le> f" and "0 \<le> c" and "c \<le> T"
  shows "eventCount T c f \<le> T + 1"
proof (cases "0 < c")
  case True
  have "\<bar>(T - c) div f\<bar> \<le> \<bar>T - c\<bar>" by (rule abs_div_le)
  with True assms show ?thesis by (simp add: eventCount_def)
next
  case False
  have "\<bar>- ((- T) div f)\<bar> \<le> \<bar>T\<bar>" by (rule abs_div_le)
  with False assms show ?thesis by (simp add: eventCount_def)
qed

text \<open>
  On safe integers, with an event count of at least \<open>1\<close>, every number of the schedule
  is an integer: \<open>shares div n\<close> per vesting, the rest of the division remaining.
\<close>

lemma generateVestingSchedule_finite:
  assumes "1 \<le> f" and "0 \<le> c" and "c \<le> y * 12" and "y * 12 + f \<le> 2 ^ 53"
    and "0 \<le> shares" and "shares < 2 ^ 53"
    and "eventCount (y * 12) c f = n" and "1 \<le> n"
  shows "generateVestingSchedule g shares y c f =
           Some (scheduleOf g (y * 12) c f (shares div n) (shares mod n))"
proof -
  define b where "b = shares div n"
  define r where "r = shares mod n"
  have n53: "n \<le> 2 ^ 53" using eventCount_le [OF assms(1-3)] assms(1,4,7) by simp
  have ev: "totalVestingEvents (y * 12) c f = num n"
    using assms by (subst totalVestingEvents_num) simp_all
  have sh: "js_floor (js_div (num shares) (num n)) = num b"
    unfolding b_def using assms n53 by (intro num_floor_div) simp_all
  have b0: "0 \<le> b" unfolding b_def using assms by (simp add: pos_imp_zdiv_nonneg_iff)
  have r0: "0 \<le> r" unfolding r_def using assms by simp
  have eq: "b * n + r = shares" unfolding b_def r_def by simp
  have bn0: "0 \<le> b * n" using b0 assms(8) by simp
  have b53: "b \<le> 2 ^ 53"
  proof -
    have "b * 1 \<le> b * n" using b0 assms(8) by (intro mult_left_mono) simp_all
    with eq r0 assms(6) show ?thesis by simp
  qed
  have mu: "js_mul (num b) (num n) = num (b * n)"
    using b0 b53 n53 assms(8) bn0 eq r0 assms(6) by (intro num_mul) simp_all
  have su: "js_sub (num shares) (num (b * n)) = num r"
  proof -
    have "js_sub (num shares) (num (b * n)) = num (shares - b * n)"
      using bn0 eq r0 assms(5,6) by (intro num_sub) simp_all
    moreover have "shares - b * n = r" using eq by linarith
    ultimately show ?thesis by simp
  qed
  have br: "b + r \<le> shares"
  proof -
    have "b * 1 \<le> b * n" using b0 assms(8) by (intro mult_left_mono) simp_all
    with eq show ?thesis by simp
  qed
  have ad: "js_add (num b) (num r) = num (b + r)"
    using b0 r0 br assms(6) by (intro num_add) simp_all
  show ?thesis
    unfolding generateVestingSchedule_def Let_def ev sh mu su ad
    using assms(1)
    by (simp add: regularVesting_months scheduleOf_def b_def r_def ad [unfolded b_def r_def]
          if_distrib cong: if_cong)
qed

lemma quantities_scheduleOf:
  "map quantity (scheduleOf g T c f b r) = map num (shareCounts T c f b r)"
  by (simp add: scheduleOf_def shareCounts_def comp_def)

lemma prices_scheduleOf: "\<forall>e \<in> set (scheduleOf g T c f b r). price e = None"
  by (auto simp: scheduleOf_def)

lemma shareCounts_nonneg:
  assumes "0 \<le> b" and "0 \<le> r"
  shows "\<forall>q \<in> set (shareCounts T c f b r). 0 \<le> q"
  using assms by (auto simp: shareCounts_def)

lemma sum_shareCounts:
  assumes "0 < f"
  shows "sum_list (shareCounts T c f b r) =
     (if 0 < c then b + r + max 0 ((T - c) div f) * b
      else max 0 (T div f) * b + (if f \<le> T \<and> f dvd T then r else 0))"
proof -
  have l1: "int (length (vestingMonths f T (c + f))) = max 0 ((T - c) div f)"
  proof -
    have "(T - (c + f) + f) div f = (T - (c + f)) div f + 1"
      using assms by (intro div_add_self2) simp
    then show ?thesis using assms by (simp add: length_vestingMonths)
  qed
  have l2: "int (length (vestingMonths f T f)) = max 0 (T div f)"
  proof -
    have "(T - f + f) div f = (T - f) div f + 1"
      using assms by (intro div_add_self2) simp
    then show ?thesis using assms by (simp add: length_vestingMonths)
  qed
  show ?thesis
    unfolding shareCounts_def
    using assms l1 l2 dvd_diff_self [of f T]
    by (simp add: sum_list_triv sum_vestingMonths_nocliff)
qed

text \<open>
  The share counts add up to the shares where there is a cliff or the frequency divides
  the vesting period, and to no more than the shares in any case.
\<close>

lemma shareCounts_total:
  assumes "0 < y" and "0 \<le> c" and "1 \<le> f" and "c \<le> y * 12" and "0 \<le> shares"
    and "n = eventCount (y * 12) c f"
  shows "sum_list (shareCounts (y * 12) c f (shares div n) (shares mod n)) \<le> shares"
    and "0 < c \<or> f dvd y * 12 \<Longrightarrow>
         sum_list (shareCounts (y * 12) c f (shares div n) (shares mod n)) = shares"
proof -
  define b where "b = shares div n"
  define r where "r = shares mod n"
  have f0: "0 < f" using assms by simp
  have n1: "1 \<le> n" unfolding assms(6) using assms(1-4) by (rule eventCount_pos)
  have b0: "0 \<le> b" unfolding b_def using assms(5) n1 by (simp add: pos_imp_zdiv_nonneg_iff)
  have r0: "0 \<le> r" unfolding r_def using n1 by simp
  have eq: "n * b + r = shares" unfolding b_def r_def by simp
  have s: "sum_list (shareCounts (y * 12) c f b r) =
     (if 0 < c then b + r + max 0 ((y * 12 - c) div f) * b
      else max 0 (y * 12 div f) * b + (if f \<le> y * 12 \<and> f dvd y * 12 then r else 0))"
    using f0 by (rule sum_shareCounts)
  have both: "sum_list (shareCounts (y * 12) c f b r) \<le> shares \<and>
      (0 < c \<or> f dvd y * 12 \<longrightarrow> sum_list (shareCounts (y * 12) c f b r) = shares)"
  proof (cases "0 < c")
    case True
    then have "0 \<le> (y * 12 - c) div f" using assms by (simp add: pos_imp_zdiv_nonneg_iff)
    moreover have "n = (y * 12 - c) div f + 1" using True by (simp add: assms(6) eventCount_def)
    ultimately have "sum_list (shareCounts (y * 12) c f b r) = n * b + r"
      using True s by (simp add: algebra_simps)
    with eq show ?thesis by simp
  next
    case False
    define k where "k = y * 12 div f"
    have k0: "0 \<le> k" unfolding k_def using assms f0 by (simp add: pos_imp_zdiv_nonneg_iff)
    have n: "n = - ((- (y * 12)) div f)" using False by (simp add: assms(6) eventCount_def)
    have kn: "k \<le> n"
    proof -
      have "\<lfloor>of_int (y * 12) / of_int f :: real\<rfloor> \<le> \<lceil>of_int (y * 12) / of_int f :: real\<rceil>"
        by (rule floor_le_ceiling)
      then show ?thesis
        unfolding k_def n by (simp only: floor_divide_of_int_eq ceiling_divide_eq_div)
    qed
    have kb: "k * b \<le> n * b" using kn b0 by (rule mult_right_mono)
    have sk: "sum_list (shareCounts (y * 12) c f b r) =
        k * b + (if f \<le> y * 12 \<and> f dvd y * 12 then r else 0)"
      using False s k0 by (simp add: k_def)
    have le: "sum_list (shareCounts (y * 12) c f b r) \<le> shares"
      using sk kb r0 eq by (simp split: if_splits)
    have "sum_list (shareCounts (y * 12) c f b r) = shares" if d: "f dvd y * 12"
    proof -
      have "f \<le> y * 12" using d assms by (intro zdvd_imp_le) simp_all
      moreover have "n = k" unfolding n k_def using d by (simp add: dvd_neg_div)
      ultimately show ?thesis using sk d eq by simp
    qed
    with le False show ?thesis by simp
  qed
  show "sum_list (shareCounts (y * 12) c f (shares div n) (shares mod n)) \<le> shares"
    using both by (simp add: b_def r_def)
  show "sum_list (shareCounts (y * 12) c f (shares div n) (shares mod n)) = shares"
    if "0 < c \<or> f dvd y * 12"
    using both that by (simp add: b_def r_def)
qed

text \<open>Adding up integers that are not below \<open>0\<close> is exact as long as the sum is safe.\<close>

lemma foldl_num:
  assumes "\<forall>q \<in> set qs. 0 \<le> q" and "0 \<le> a" and "a + sum_list qs \<le> 2 ^ 53"
  shows "foldl js_add (num a) (map num qs) = num (a + sum_list qs)"
  using assms
proof (induction qs arbitrary: a)
  case Nil
  then show ?case by simp
next
  case (Cons q qs)
  have s0: "0 \<le> sum_list qs" using Cons.prems(1) by (intro sum_list_nonneg) simp
  have q0: "0 \<le> q" using Cons.prems(1) by simp
  have "js_add (num a) (num q) = num (a + q)"
    using Cons.prems(2,3) q0 s0 by (intro num_add) simp_all
  moreover have "foldl js_add (num (a + q)) (map num qs) = num (a + q + sum_list qs)"
    using Cons.prems q0 by (intro Cons.IH) simp_all
  ultimately show ?case by (simp add: add.assoc)
qed

lemma js_sum_num:
  assumes "\<forall>q \<in> set qs. 0 \<le> q" and "sum_list qs \<le> 2 ^ 53"
  shows "js_sum (map num qs) = num (sum_list qs)"
  using foldl_num [OF assms(1), of 0] assms(2) by (simp add: js_sum_def)

text \<open>
  The schedule on safe integers, with the cliff within the vesting period.
\<close>

lemma schedule_shape:
  assumes "0 < shares" and "0 < y" and "0 \<le> c" and "1 \<le> f" and "c \<le> y * 12"
    and "shares < 2 ^ 53" and "y * 12 + f \<le> 2 ^ 53"
  shows "\<exists>b r. generateVestingSchedule g shares y c f =
                  Some (scheduleOf g (y * 12) c f b r) \<and>
               0 \<le> b \<and> 0 \<le> r \<and>
               sum_list (shareCounts (y * 12) c f b r) \<le> shares \<and>
               (if 0 < c \<or> f dvd y * 12
                then sum_list (shareCounts (y * 12) c f b r) = shares else True)"
proof -
  define n where "n = eventCount (y * 12) c f"
  have n1: "1 \<le> n" unfolding n_def using assms(2-5) by (rule eventCount_pos)
  have s0: "0 \<le> shares" using assms(1) by simp
  have "generateVestingSchedule g shares y c f =
      Some (scheduleOf g (y * 12) c f (shares div n) (shares mod n))"
    using assms(4,3,5,7) s0 assms(6) n_def [symmetric] n1
    by (rule generateVestingSchedule_finite)
  moreover have "0 \<le> shares div n" using s0 n1 by (simp add: pos_imp_zdiv_nonneg_iff)
  moreover have "0 \<le> shares mod n" using n1 by simp
  moreover note shareCounts_total [OF assms(2-5) s0 n_def]
  ultimately show ?thesis by (intro exI [of _ "shares div n"] exI [of _ "shares mod n"]) simp
qed

lemma schedule_sum:
  assumes "0 < shares" and "0 < y" and "0 \<le> c" and "1 \<le> f" and "c \<le> y * 12"
    and "0 < c \<or> f dvd y * 12"
    and "shares < 2 ^ 53" and "y * 12 + f \<le> 2 ^ 53"
  shows "\<exists>evs. generateVestingSchedule g shares y c f = Some evs \<and>
           totalQuantity evs = num shares"
proof -
  from schedule_shape [OF assms(1-5,7,8), of g] assms(6) obtain b r where
    g: "generateVestingSchedule g shares y c f = Some (scheduleOf g (y * 12) c f b r)"
    and b: "0 \<le> b" "0 \<le> r"
    and s: "sum_list (shareCounts (y * 12) c f b r) = shares"
    by (auto split: if_splits)
  have "totalQuantity (scheduleOf g (y * 12) c f b r) =
          num (sum_list (shareCounts (y * 12) c f b r))"
    unfolding totalQuantity_def quantities_scheduleOf
    using shareCounts_nonneg [OF b] s assms(7) by (intro js_sum_num) simp_all
  with g s show ?thesis by simp
qed

section \<open>The shares handed out\<close>

text \<open>
  Above \<open>2^53\<close> not every integer is a double: \<open>2^53 + 2\<close> is one, a third of it
  rounds to a number that ends in a half, and \<open>2^53 + 1\<close> and \<open>2^53 + 3\<close> round to
  their even neighbours.
\<close>

lemma big_shares:
  "num 9007199254740994 = Fin 9007199254740994"
  "round64 (9007199254740994 / 3) = Fin (6004799503160663 / 2)"
  "round64 9007199254740993 = Fin 9007199254740992"
  "round64 9007199254740995 = Fin 9007199254740996"
proof -
  show "num 9007199254740994 = Fin 9007199254740994"
    unfolding num_def
    by (simp, subst round64_normal [where k = 53]) (simp_all add: pow2_def roundHalfEven_def)
  show "round64 (9007199254740994 / 3) = Fin (6004799503160663 / 2)"
    by (subst round64_normal [where k = 51]) (simp_all add: pow2_def roundHalfEven_def)
  show "round64 9007199254740993 = Fin 9007199254740992"
    by (subst round64_normal [where k = 53]) (simp_all add: pow2_def roundHalfEven_def)
  show "round64 9007199254740995 = Fin 9007199254740996"
    by (subst round64_normal [where k = 53]) (simp_all add: pow2_def roundHalfEven_def)
qed

text \<open>
  C1, as the spec states it, fails. The spec has the quantities of the tranches sum to
  \<open>totalShares\<close> for every input with positive \<open>totalShares\<close> and \<open>vestingYears\<close>,
  \<open>cliffMonths\<close> at least \<open>0\<close> and \<open>frequencyMonths\<close> at least \<open>1\<close>. Of 100 shares over
  one year, no cliff, every 5 months, the schedule hands out 66; with a cliff of 13
  months, monthly, the one quantity is \<open>NaN\<close>; with a cliff of 24 months it is \<open>-20\<close>.
  And of \<open>2^53 + 2\<close> shares over one year, no cliff, every 4 months, the shares per
  vesting are 3002399751580331, their product with 3 rounds to \<open>2^53\<close>, the
  remaining shares are 2, and the tranches of 3002399751580331, 3002399751580331 and
  3002399751580333 shares add up to \<open>2^53 + 4\<close>.
\<close>

theorem C1_counterexample:
  "map_option totalQuantity (generateVestingSchedule (localMidnight 2024 0 1) 100 1 0 5)
     = Some (num 66) \<and>
   map_option totalQuantity (generateVestingSchedule (localMidnight 2024 0 1) 100 1 0 5)
     \<noteq> Some (num 100) \<and>
   map_option totalQuantity (generateVestingSchedule (localMidnight 2024 0 1) 100 1 13 1)
     = Some NaN \<and>
   map_option totalQuantity (generateVestingSchedule (localMidnight 2024 0 1) 100 1 24 1)
     = Some (num (- 20)) \<and>
   map_option (map quantity)
       (generateVestingSchedule (localMidnight 2024 0 1) 9007199254740994 1 0 4)
     = Some [Fin 3002399751580331, Fin 3002399751580331, Fin 3002399751580333] \<and>
   map_option totalQuantity
       (generateVestingSchedule (localMidnight 2024 0 1) 9007199254740994 1 0 4)
     = Some (Fin 9007199254740996) \<and>
   num 9007199254740994 = Fin 9007199254740994"
  by (simp add: schedule_eval big_shares)

text \<open>
  C1, amended: for every input with positive \<open>totalShares\<close> below \<open>2^53\<close> and positive
  \<open>vestingYears\<close>, \<open>cliffMonths\<close> from \<open>0\<close> to the vesting period \<open>vestingYears * 12\<close>,
  \<open>frequencyMonths\<close> at least \<open>1\<close>, the vesting period and \<open>frequencyMonths\<close> together
  at most \<open>2^53\<close> months, and where there is no cliff \<open>frequencyMonths\<close> dividing the
  vesting period, \<open>generateVestingSchedule\<close> returns, and the quantities of the
  tranches it returns sum to \<open>totalShares\<close>.
\<close>

theorem C1_schedule_sum:
  assumes "0 < totalShares" and "0 < vestingPeriodYears" and "0 \<le> cliffMonths"
    and "1 \<le> vestingFrequencyMonths"
    and "cliffMonths \<le> vestingPeriodYears * 12"
    and "0 < cliffMonths \<or> vestingFrequencyMonths dvd vestingPeriodYears * 12"
    and "totalShares < 2 ^ 53"
    and "vestingPeriodYears * 12 + vestingFrequencyMonths \<le> 2 ^ 53"
  shows "\<exists>vestingEvents.
           generateVestingSchedule grantedOn totalShares vestingPeriodYears cliffMonths
             vestingFrequencyMonths = Some vestingEvents \<and>
           totalQuantity vestingEvents = num totalShares"
  using assms by (rule schedule_sum)

theorem C1_schedule_sum_witness:
  "(0::int) < 1200 \<and> (0::int) < 4 \<and> (0::int) \<le> 12 \<and> (1::int) \<le> 3 \<and> (12::int) \<le> 4 * 12 \<and>
   (1200::int) < 2 ^ 53 \<and> (4::int) * 12 + 3 \<le> 2 ^ 53 \<and>
   (\<exists>vestingEvents.
      generateVestingSchedule (localMidnight 2024 0 1) 1200 4 12 3 = Some vestingEvents \<and>
      totalQuantity vestingEvents = num 1200)"
  using C1_schedule_sum [of 1200 4 12 3 "localMidnight 2024 0 1"] by simp

section \<open>The schedule without a cliff\<close>

lemma last_vestingMonths:
  "0 < f \<Longrightarrow> m \<le> T \<Longrightarrow> f dvd (T - m) \<Longrightarrow> last (vestingMonths f T m) = T"
proof (induction f T m rule: vestingMonths.induct)
  case (1 f T m)
  show ?case
  proof (cases "m = T")
    case True
    then show ?thesis using 1(2)
      by (subst vestingMonths.simps, subst vestingMonths.simps) simp
  next
    case False
    have d: "f dvd (T - (m + f))"
      using dvd_diff_self [of f "T - m"] 1(4) by (simp add: algebra_simps)
    have le: "m + f \<le> T"
      using 1 False by (metis zdvd_imp_le diff_gt_0_iff_gt order_le_less le_diff_eq add.commute)
    have ne: "vestingMonths f T (m + f) \<noteq> []"
      using le 1(2) by (subst vestingMonths.simps) simp
    show ?thesis using 1 d le ne
      by (subst vestingMonths.simps) simp
  qed
qed

text \<open>
  Where the frequency divides the vesting period, the code builds the schedule of the
  spec, on safe integers: the loop ends on \<open>totalVestingMonths\<close>, and the tranche there
  takes the remaining shares.
\<close>

lemma noCliff_schedule_divides:
  assumes "0 < y" and "1 \<le> f" and "f dvd y * 12"
    and "0 \<le> shares" and "shares < 2 ^ 53" and "y * 12 + f \<le> 2 ^ 53"
  shows "generateVestingSchedule g shares y 0 f =
           Some (noCliffScheduleOfSpec g shares (y * 12) f)"
proof -
  have f0: "0 < f" using assms by simp
  have n1: "1 \<le> eventCount (y * 12) 0 f"
    using assms by (intro eventCount_pos) simp_all
  have le: "f \<le> y * 12" using assms by (intro zdvd_imp_le) simp_all
  have l: "last (vestingMonths f (y * 12) f) = y * 12"
    using f0 le assms(3) by (intro last_vestingMonths) (simp_all add: dvd_diff_self)
  have y0: "0 \<le> y * 12" using assms(1) by simp
  define n where "n = - ((- (y * 12)) div f)"
  have ec: "eventCount (y * 12) 0 f = n" by (simp add: eventCount_def n_def)
  have "generateVestingSchedule g shares y 0 f =
      Some (scheduleOf g (y * 12) 0 f (shares div n) (shares mod n))"
    using assms(2) order_refl y0 assms(6,4,5) ec n1 [unfolded ec]
    by (rule generateVestingSchedule_finite)
  moreover have "noCliffScheduleOfSpec g shares (y * 12) f =
      scheduleOf g (y * 12) 0 f (shares div n) (shares mod n)"
    unfolding noCliffScheduleOfSpec_def Let_def l n_def [symmetric] minus_div_mult_eq_mod
    by (simp add: scheduleOf_def)
  ultimately show ?thesis by simp
qed

text \<open>
  Where it does not, the event count is one more than the tranches the loop emits, no
  tranche takes the remaining shares, and the schedule hands out fewer shares than
  \<open>totalShares\<close>.
\<close>

lemma ceil_div_indivisible:
  fixes T f :: int
  assumes "0 < f" and "\<not> f dvd T"
  shows "- ((- T) div f) = T div f + 1"
proof -
  have "T mod f \<noteq> 0" using assms(2) by (simp add: dvd_eq_mod_eq_0)
  moreover have "f \<noteq> 0" using assms(1) by simp
  ultimately have "(- T) div f = - (T div f) - 1"
    by (simp add: zdiv_zminus1_eq_if)
  then show ?thesis by simp
qed

lemma noCliff_indivisible:
  assumes "0 < shares" and "0 < y" and "1 \<le> f" and "\<not> f dvd y * 12"
    and "shares < 2 ^ 53" and "y * 12 + f \<le> 2 ^ 53"
  shows "\<exists>evs. generateVestingSchedule g shares y 0 f = Some evs \<and>
           totalQuantity evs = num (y * 12 div f * (shares div (y * 12 div f + 1))) \<and>
           y * 12 div f * (shares div (y * 12 div f + 1)) < shares"
proof -
  define k where "k = y * 12 div f"
  define n where "n = eventCount (y * 12) 0 f"
  have f0: "0 < f" using assms by simp
  have k0: "0 \<le> k" unfolding k_def using assms f0 by (simp add: pos_imp_zdiv_nonneg_iff)
  have n: "n = k + 1"
    unfolding n_def k_def eventCount_def using ceil_div_indivisible [OF f0 assms(4)] by simp
  have n1: "1 \<le> n" using n k0 by simp
  have y0: "0 \<le> y * 12" using assms(2) by simp
  have s0: "0 \<le> shares" using assms(1) by simp
  have gen: "generateVestingSchedule g shares y 0 f =
      Some (scheduleOf g (y * 12) 0 f (shares div n) (shares mod n))"
    using assms(3) order_refl y0 assms(6) s0 assms(5) n_def [symmetric] n1
    by (rule generateVestingSchedule_finite)
  have b0: "0 \<le> shares div n" using s0 n1 by (simp add: pos_imp_zdiv_nonneg_iff)
  have r0: "0 \<le> shares mod n" using n1 by simp
  have "shares div (k + 1) * (k + 1) + shares mod (k + 1) = shares"
    by (rule div_mult_mod_eq)
  moreover have "0 \<le> shares mod (k + 1)" using k0 by simp
  ultimately have "(k + 1) * (shares div (k + 1)) \<le> shares"
    by (simp add: algebra_simps)
  moreover have "0 \<le> shares div (k + 1)"
    using assms(1) k0 by (simp add: pos_imp_zdiv_nonneg_iff)
  ultimately have lt: "k * (shares div (k + 1)) < shares"
    using assms(1) by (cases "shares div (k + 1) = 0") (simp_all add: algebra_simps)
  have sum: "sum_list (shareCounts (y * 12) 0 f (shares div n) (shares mod n)) =
      k * (shares div n)"
    using f0 k0 assms(4) by (simp add: sum_shareCounts k_def)
  have nn: "\<forall>q \<in> set (shareCounts (y * 12) 0 f (shares div n) (shares mod n)). 0 \<le> q"
    using b0 r0 by (rule shareCounts_nonneg)
  have le: "sum_list (shareCounts (y * 12) 0 f (shares div n) (shares mod n)) \<le> 2 ^ 53"
    using sum lt [folded n] assms(5) by linarith
  have tq: "totalQuantity (scheduleOf g (y * 12) 0 f (shares div n) (shares mod n)) =
      num (k * (shares div n))"
    unfolding totalQuantity_def quantities_scheduleOf
    using js_sum_num [OF nn le] by (simp only: sum)
  show ?thesis
    unfolding k_def [symmetric]
    by (intro exI conjI) (rule gen [unfolded n], rule tq [unfolded n], rule lt)
qed

text \<open>
  C2: where the frequency does not divide the vesting period, the code departs from
  the claim. Of 100 shares over one year, no cliff, every 5 months, the event count is
  3, \<open>base\<close> is 33 and the remainder 1. The code emits the tranches of the months 5 and
  10 with 33 shares each: the loop never meets \<open>month === totalVestingMonths\<close>, so no
  tranche takes the remainder. The claim gives the final tranche, of month 10, 34
  shares.
\<close>

theorem C2_failing_input:
  "generateVestingSchedule (localMidnight 2024 0 1) 100 1 0 5 =
     Some [vestingEvent (localMidnight 2024 0 1) 5 (num 33),
           vestingEvent (localMidnight 2024 0 1) 10 (num 33)] \<and>
   noCliffScheduleOfSpec (localMidnight 2024 0 1) 100 (1 * 12) 5 =
     [vestingEvent (localMidnight 2024 0 1) 5 (num 33),
      vestingEvent (localMidnight 2024 0 1) 10 (num 34)]"
  by (simp add: schedule_eval noCliffScheduleOfSpec_def vestingMonths.simps)

section \<open>The value of a grant\<close>

text \<open>
  The number \<open>0.1\<close>, the double nearest a tenth, and its products with 7, 6 and 13.
\<close>

lemma tenth: "round64 (1 / 10) = Fin (3602879701896397 / 2 ^ 55)"
  by (subst round64_normal [where k = "- 4"]) (simp_all add: pow2_def roundHalfEven_def)

lemma tenths:
  "js_mul (Fin 7) (round64 (1 / 10)) = Fin (6305039478318695 / 2 ^ 53)"
  "js_mul (Fin 6) (round64 (1 / 10)) = Fin (5404319552844596 / 2 ^ 53)"
  "js_mul (Fin 13) (round64 (1 / 10)) = Fin (5854679515581645 / 2 ^ 52)"
  "js_add (Fin 0) (Fin (6305039478318695 / 2 ^ 53)) = Fin (6305039478318695 / 2 ^ 53)"
  "js_add (Fin (6305039478318695 / 2 ^ 53)) (Fin (5404319552844596 / 2 ^ 53)) =
     Fin (5854679515581646 / 2 ^ 52)"
proof -
  show "js_mul (Fin 7) (round64 (1 / 10)) = Fin (6305039478318695 / 2 ^ 53)"
    unfolding tenth
    by (simp, subst round64_normal [where k = "- 1"]) (simp_all add: pow2_def roundHalfEven_def)
  show "js_mul (Fin 6) (round64 (1 / 10)) = Fin (5404319552844596 / 2 ^ 53)"
    unfolding tenth
    by (simp, subst round64_normal [where k = "- 1"]) (simp_all add: pow2_def roundHalfEven_def)
  show "js_mul (Fin 13) (round64 (1 / 10)) = Fin (5854679515581645 / 2 ^ 52)"
    unfolding tenth
    by (simp, subst round64_normal [where k = 0]) (simp_all add: pow2_def roundHalfEven_def)
  show "js_add (Fin 0) (Fin (6305039478318695 / 2 ^ 53)) = Fin (6305039478318695 / 2 ^ 53)"
    by (simp, subst round64_normal [where k = "- 1"]) (simp_all add: pow2_def roundHalfEven_def)
  show "js_add (Fin (6305039478318695 / 2 ^ 53)) (Fin (5404319552844596 / 2 ^ 53)) =
     Fin (5854679515581646 / 2 ^ 52)"
    by (simp, subst round64_normal [where k = 0]) (simp_all add: pow2_def roundHalfEven_def)
qed

lemma value_seven_six:
  "calculateTotalValue
     (acmeGrant (localMidnight 2024 0 1) (num 13)
        [vestingEvent (localMidnight 2024 0 1) 6 (num 7),
         vestingEvent (localMidnight 2024 0 1) 12 (num 6)]) (round64 (1 / 10)) =
     Fin (5854679515581646 / 2 ^ 52)"
proof -
  have "calculateTotalValue
     (acmeGrant (localMidnight 2024 0 1) (num 13)
        [vestingEvent (localMidnight 2024 0 1) 6 (num 7),
         vestingEvent (localMidnight 2024 0 1) 12 (num 6)]) (round64 (1 / 10)) =
     js_add (js_add (Fin 0) (js_mul (Fin 7) (round64 (1 / 10))))
       (js_mul (Fin 6) (round64 (1 / 10)))"
    by (simp add: calculateTotalValue_def acmeGrant_def)
  then show ?thesis unfolding tenths .
qed

text \<open>
  C3, as the spec states it, fails where a product rounds: of 13 shares over one year
  with a cliff of 6 months, every 6 months, the tranches have 7 and 6 shares; at the
  price \<open>0.1\<close> they are worth \<open>0.7000000000000001\<close> and \<open>0.6000000000000001\<close>, together
  \<open>1.3000000000000003\<close>, where 13 times \<open>0.1\<close> is \<open>1.3\<close>. It fails where C1 does: a
  schedule that does not hand out all the shares is not worth all the shares. For the
  100 shares over one year, no cliff, every 5 months, at a price of 10 the value is
  660, not 1000; with a cliff of 24 months it is -200. And it fails for a price that is
  not finite: of 1 share over one year with a cliff of 6 months, quarterly, two
  tranches are empty, and at the price \<open>Infinity\<close> the value is \<open>NaN\<close>, not \<open>Infinity\<close>.
\<close>

theorem C3_counterexample:
  "round64 (1 / 10) = Fin (3602879701896397 / 2 ^ 55) \<and>
   generateVestingSchedule (localMidnight 2024 0 1) 13 1 6 6 =
     Some [vestingEvent (localMidnight 2024 0 1) 6 (num 7),
           vestingEvent (localMidnight 2024 0 1) 12 (num 6)] \<and>
   calculateTotalValue
     (acmeGrant (localMidnight 2024 0 1) (num 13)
        [vestingEvent (localMidnight 2024 0 1) 6 (num 7),
         vestingEvent (localMidnight 2024 0 1) 12 (num 6)]) (round64 (1 / 10)) =
     Fin (5854679515581646 / 2 ^ 52) \<and>
   js_mul (num 13) (round64 (1 / 10)) = Fin (5854679515581645 / 2 ^ 52) \<and>
   generateVestingSchedule (localMidnight 2024 0 1) 100 1 0 5 =
     Some [vestingEvent (localMidnight 2024 0 1) 5 (num 33),
           vestingEvent (localMidnight 2024 0 1) 10 (num 33)] \<and>
   calculateTotalValue
     (acmeGrant (localMidnight 2024 0 1) (num 100)
        [vestingEvent (localMidnight 2024 0 1) 5 (num 33),
         vestingEvent (localMidnight 2024 0 1) 10 (num 33)]) (Fin 10) = Fin 660 \<and>
   js_mul (num 100) (Fin 10) = Fin 1000 \<and>
   generateVestingSchedule (localMidnight 2024 0 1) 100 1 24 1 =
     Some [vestingEvent (localMidnight 2024 0 1) 24 (num (- 20))] \<and>
   calculateTotalValue
     (acmeGrant (localMidnight 2024 0 1) (num 100)
        [vestingEvent (localMidnight 2024 0 1) 24 (num (- 20))]) (Fin 10) = Fin (- 200) \<and>
   generateVestingSchedule (localMidnight 2024 0 1) 1 1 6 3 =
     Some [vestingEvent (localMidnight 2024 0 1) 6 (num 1),
           vestingEvent (localMidnight 2024 0 1) 9 (num 0),
           vestingEvent (localMidnight 2024 0 1) 12 (num 0)] \<and>
   calculateTotalValue
     (acmeGrant (localMidnight 2024 0 1) (num 1)
        [vestingEvent (localMidnight 2024 0 1) 6 (num 1),
         vestingEvent (localMidnight 2024 0 1) 9 (num 0),
         vestingEvent (localMidnight 2024 0 1) 12 (num 0)]) PosInf = NaN \<and>
   js_mul (num 1) PosInf = PosInf"
proof -
  have "js_mul (num 13) (round64 (1 / 10)) = Fin (5854679515581645 / 2 ^ 52)"
    using tenths(3) by simp
  moreover have "generateVestingSchedule (localMidnight 2024 0 1) 1 1 6 3 =
     Some [vestingEvent (localMidnight 2024 0 1) 6 (num 1),
           vestingEvent (localMidnight 2024 0 1) 9 (num 0),
           vestingEvent (localMidnight 2024 0 1) 12 (num 0)]"
    by (simp add: schedule_eval)
  moreover have "calculateTotalValue
     (acmeGrant (localMidnight 2024 0 1) (num 1)
        [vestingEvent (localMidnight 2024 0 1) 6 (num 1),
         vestingEvent (localMidnight 2024 0 1) 9 (num 0),
         vestingEvent (localMidnight 2024 0 1) 12 (num 0)]) PosInf = NaN"
    by (simp add: calculateTotalValue_def acmeGrant_def signed_inf_def)
  moreover have "js_mul (num 1) PosInf = PosInf" by (simp add: signed_inf_def)
  moreover have "round64 (1 / 10) = Fin (3602879701896397 / 2 ^ 55)" by (rule tenth)
  moreover have "generateVestingSchedule (localMidnight 2024 0 1) 13 1 6 6 =
     Some [vestingEvent (localMidnight 2024 0 1) 6 (num 7),
           vestingEvent (localMidnight 2024 0 1) 12 (num 6)]"
    by (simp add: schedule_eval)
  moreover have "generateVestingSchedule (localMidnight 2024 0 1) 100 1 0 5 =
     Some [vestingEvent (localMidnight 2024 0 1) 5 (num 33),
           vestingEvent (localMidnight 2024 0 1) 10 (num 33)]"
    by (simp add: schedule_eval)
  moreover have "calculateTotalValue
     (acmeGrant (localMidnight 2024 0 1) (num 100)
        [vestingEvent (localMidnight 2024 0 1) 5 (num 33),
         vestingEvent (localMidnight 2024 0 1) 10 (num 33)]) (Fin 10) = Fin 660"
    by (simp add: calculateTotalValue_def acmeGrant_def)
  moreover have "js_mul (num 100) (Fin 10) = Fin 1000" by simp
  moreover have "generateVestingSchedule (localMidnight 2024 0 1) 100 1 24 1 =
     Some [vestingEvent (localMidnight 2024 0 1) 24 (num (- 20))]"
    by (simp add: schedule_eval)
  moreover have "calculateTotalValue
     (acmeGrant (localMidnight 2024 0 1) (num 100)
        [vestingEvent (localMidnight 2024 0 1) 24 (num (- 20))]) (Fin 10) = Fin (- 200)"
    by (simp add: calculateTotalValue_def acmeGrant_def)
  ultimately show ?thesis using value_seven_six by blast
qed

lemma value_fold:
  assumes "\<forall>e \<in> set evs. price e = None" and "map quantity evs = map num qs"
    and "\<forall>q \<in> set qs. 0 \<le> q" and "0 \<le> n" and "j \<le> 1022" and "sum_list qs \<le> 2 ^ 53"
    and "0 \<le> a" and "a + sum_list qs * n \<le> 2 ^ 53"
  shows "foldl (\<lambda>t e. js_add t (js_mul (quantity e) (or_else (price e) (Fin (of_int n / 2 ^ j)))))
           (Fin (of_int a / 2 ^ j)) evs = Fin (of_int (a + sum_list qs * n) / 2 ^ j)"
  using assms(1,2,3,6,7,8)
proof (induction evs arbitrary: qs a)
  case Nil
  then show ?case by simp
next
  case (Cons e evs)
  from Cons.prems(2) obtain q qs' where
    qs: "qs = q # qs'" "quantity e = num q" "map quantity evs = map num qs'"
    by (cases qs) auto
  have q0: "0 \<le> q" and s0: "0 \<le> sum_list qs'"
    using Cons.prems(3) qs(1) by (simp_all add: sum_list_nonneg)
  have qp0: "0 \<le> q * n" and sp0: "0 \<le> sum_list qs' * n"
    using q0 s0 assms(4) by simp_all
  have split: "sum_list qs * n = q * n + sum_list qs' * n"
    by (simp add: qs(1) algebra_simps)
  have qs53: "q \<le> 2 ^ 53" using Cons.prems(4) qs(1) s0 by simp
  have qp53: "q * n \<le> 2 ^ 53" and aqp53: "a + q * n \<le> 2 ^ 53"
    using Cons.prems(5,6) split sp0 by linarith+
  have m: "js_mul (num q) (Fin (of_int n / 2 ^ j)) = Fin (of_int (q * n) / 2 ^ j)"
    using q0 qs53 qp0 qp53 assms(5) by (intro dyadic_mul) simp_all
  have ad: "js_add (Fin (of_int a / 2 ^ j)) (Fin (of_int (q * n) / 2 ^ j)) =
      Fin (of_int (a + q * n) / 2 ^ j)"
    using qp0 aqp53 Cons.prems(5) assms(5) by (intro dyadic_add) simp_all
  have "foldl (\<lambda>t e. js_add t (js_mul (quantity e) (or_else (price e) (Fin (of_int n / 2 ^ j)))))
          (Fin (of_int (a + q * n) / 2 ^ j)) evs =
        Fin (of_int (a + q * n + sum_list qs' * n) / 2 ^ j)"
    using Cons.prems qs q0 s0 qp0 split by (intro Cons.IH) simp_all
  then show ?case using Cons.prems(1) qs(1,2) split
    by (simp only: foldl_Cons list.set_intros or_else.simps m ad add.assoc)
qed

text \<open>
  C3, amended: take a grant whose tranches have the quantities of the schedule that
  \<open>generateVestingSchedule\<close> returns for the quantity of the grant, on an input as in
  C1 amended (positive \<open>totalShares\<close> below \<open>2^53\<close> and positive \<open>vestingYears\<close>,
  \<open>cliffMonths\<close> from \<open>0\<close> to the vesting period, \<open>frequencyMonths\<close> at least \<open>1\<close> and,
  without a cliff, dividing the vesting period, the two together at most \<open>2^53\<close>
  months), and in which no tranche has a price. Then for every \<open>fallbackPrice\<close> that
  is a whole number \<open>n\<close>, not below \<open>0\<close>, of \<open>2^j\<close>-ths, with \<open>j\<close> at most 1022 and
  \<open>totalShares * n\<close> at most \<open>2^53\<close>, \<open>calculateTotalValue\<close> is the quantity of the grant
  times \<open>fallbackPrice\<close>: no product and no sum rounds.
\<close>

theorem C3_value_no_prices:
  assumes "0 < totalShares" and "0 < vestingPeriodYears" and "0 \<le> cliffMonths"
    and "1 \<le> vestingFrequencyMonths"
    and "cliffMonths \<le> vestingPeriodYears * 12"
    and "0 < cliffMonths \<or> vestingFrequencyMonths dvd vestingPeriodYears * 12"
    and "totalShares < 2 ^ 53"
    and "vestingPeriodYears * 12 + vestingFrequencyMonths \<le> 2 ^ 53"
    and "generateVestingSchedule (grantDate grant) totalShares vestingPeriodYears cliffMonths
           vestingFrequencyMonths = Some vestingEvents"
    and "grantQuantity grant = num totalShares"
    and "map quantity (vestingSchedule grant) = map quantity vestingEvents"
    and "list_all (\<lambda>event. price event = None) (vestingSchedule grant)"
    and "fallbackPrice = of_int n / 2 ^ j" and "0 \<le> n" and "j \<le> 1022"
    and "totalShares * n \<le> 2 ^ 53"
  shows "calculateTotalValue grant (Fin fallbackPrice) =
           js_mul (grantQuantity grant) (Fin fallbackPrice)"
proof -
  from schedule_shape [OF assms(1-5,7,8), of "grantDate grant"] assms(6,9) obtain b r where
    s: "vestingEvents = scheduleOf (grantDate grant) (vestingPeriodYears * 12) cliffMonths
           vestingFrequencyMonths b r"
    and b: "0 \<le> b" "0 \<le> r"
    and t: "sum_list (shareCounts (vestingPeriodYears * 12) cliffMonths
              vestingFrequencyMonths b r) = totalShares"
    by (auto split: if_splits)
  define qs where
    "qs = shareCounts (vestingPeriodYears * 12) cliffMonths vestingFrequencyMonths b r"
  have np: "\<forall>e \<in> set (vestingSchedule grant). price e = None"
    using assms(12) by (simp add: list_all_iff)
  have q: "map quantity (vestingSchedule grant) = map num qs"
    using assms(11) by (simp add: s quantities_scheduleOf qs_def)
  have q0: "\<forall>q \<in> set qs. 0 \<le> q" unfolding qs_def using b by (rule shareCounts_nonneg)
  have t': "sum_list qs = totalShares" using t by (simp add: qs_def)
  have tn0: "0 \<le> totalShares * n" using assms(1,14) by simp
  have "foldl (\<lambda>t e. js_add t (js_mul (quantity e) (or_else (price e) (Fin (of_int n / 2 ^ j)))))
          (Fin (of_int 0 / 2 ^ j)) (vestingSchedule grant) =
        Fin (of_int (0 + sum_list qs * n) / 2 ^ j)"
    using np q q0 assms(14,15) assms(7,16) t' by (intro value_fold) simp_all
  moreover have "js_mul (num totalShares) (Fin (of_int n / 2 ^ j)) =
      Fin (of_int (totalShares * n) / 2 ^ j)"
    using assms(1,7,15,16) tn0 by (intro dyadic_mul) simp_all
  ultimately show ?thesis
    by (simp add: calculateTotalValue_def assms(10,13) t')
qed

theorem C3_value_no_prices_witness:
  "(0::int) < 100 \<and> (0::int) < 1 \<and> (0::int) \<le> 6 \<and> (1::int) \<le> 6 \<and> (6::int) \<le> 1 * 12 \<and>
   (100::int) < 2 ^ 53 \<and> (1::int) * 12 + 6 \<le> 2 ^ 53 \<and>
   (12.5::real) = of_int 25 / 2 ^ 1 \<and> (0::int) \<le> 25 \<and> (1::nat) \<le> 1022 \<and>
   (100::int) * 25 \<le> 2 ^ 53 \<and>
   generateVestingSchedule (localMidnight 2024 0 1) 100 1 6 6 =
     Some [vestingEvent (localMidnight 2024 0 1) 6 (num 50),
           vestingEvent (localMidnight 2024 0 1) 12 (num 50)] \<and>
   calculateTotalValue
     (acmeGrant (localMidnight 2024 0 1) (num 100)
        [vestingEvent (localMidnight 2024 0 1) 6 (num 50),
         vestingEvent (localMidnight 2024 0 1) 12 (num 50)]) (Fin 12.5) = Fin 1250"
  using C3_value_no_prices [of 100 1 6 6
      "acmeGrant (localMidnight 2024 0 1) (num 100)
         [vestingEvent (localMidnight 2024 0 1) 6 (num 50),
          vestingEvent (localMidnight 2024 0 1) 12 (num 50)]"
      "[vestingEvent (localMidnight 2024 0 1) 6 (num 50),
        vestingEvent (localMidnight 2024 0 1) 12 (num 50)]" "12.5" 25 1]
  by (simp add: schedule_eval acmeGrant_def)

section \<open>The scenario of the spec\<close>

text \<open>
  C4, as the spec states it, fails: it gives the first tranche of 1200 shares over 4
  years, with a cliff of 12 months, quarterly, both 1200/16 = 75 and 96 shares. The
  code gives it 96.
\<close>

theorem C4_counterexample:
  "map_option (map quantity) (generateVestingSchedule (localMidnight 2024 0 1) 1200 4 12 3)
     = Some (num 96 # replicate 12 (num 92)) \<and>
   (1200::int) div 16 = 75 \<and> num 96 \<noteq> num 75"
  by (simp add: schedule_eval numeral_eq_Suc)

text \<open>
  C4, amended: \<open>generateVestingSchedule\<close> of the first of January 2024, 1200 shares, 4
  years, a cliff of 12 months and a frequency of 3 months has 13 events, 92 shares per
  vesting and 4 remaining shares. The first tranche is dated the first of January 2025
  and has 96 shares, the cliff's share and the remainder (not 75); 12 tranches of 92
  shares follow, a quarter apart, and the quantities total 1200.
\<close>

theorem C4_scenario:
  "totalVestingEvents (4 * 12) 12 3 = num 13 \<and>
   js_floor (js_div (num 1200) (num 13)) = num 92 \<and>
   js_sub (num 1200) (js_mul (num 92) (num 13)) = num 4 \<and>
   map_option (map date) (generateVestingSchedule (localMidnight 2024 0 1) 1200 4 12 3)
     = Some [localMidnight 2025 0 1, localMidnight 2025 3 1, localMidnight 2025 6 1,
             localMidnight 2025 9 1, localMidnight 2026 0 1, localMidnight 2026 3 1,
             localMidnight 2026 6 1, localMidnight 2026 9 1, localMidnight 2027 0 1,
             localMidnight 2027 3 1, localMidnight 2027 6 1, localMidnight 2027 9 1,
             localMidnight 2028 0 1] \<and>
   map_option (map quantity) (generateVestingSchedule (localMidnight 2024 0 1) 1200 4 12 3)
     = Some (num 96 # replicate 12 (num 92)) \<and>
   map_option totalQuantity (generateVestingSchedule (localMidnight 2024 0 1) 1200 4 12 3)
     = Some (num 1200)"
  by (simp add: schedule_eval addMonths_def localMidnight_def getDaysInMonth_def
        vestingEvent_def numeral_eq_Suc)

section \<open>The total value, tranche by tranche\<close>

lemma or_else_cases:
  "or_else po d =
     (case po of None \<Rightarrow> d | Some x \<Rightarrow> if x = Fin 0 \<or> x = NaN then d else x)"
  by (cases po; simp) (metis truthy.elims(2,3) jsnum.distinct jsnum.inject)

text \<open>
  C5, as the spec states it, fails: a tranche whose stored price is \<open>0\<close> is valued at
  the fallback price, since \<open>event.price || currentPrice\<close> takes a price of \<open>0\<close> for no
  price. Two shares with the stored price 0 are worth 20 at the fallback price 10,
  where the spec has them worth 0.
\<close>

theorem C5_counterexample:
  "calculateTotalValue
     (acmeGrant (localMidnight 2024 0 1) (num 2)
        [\<lparr>date = localMidnight 2024 6 1, quantity = num 2, price = Some (Fin 0),
          priceError = None, value' = Some (Fin 0)\<rparr>]) (Fin 10) = Fin 20 \<and>
   totalValueOfSpec
     (acmeGrant (localMidnight 2024 0 1) (num 2)
        [\<lparr>date = localMidnight 2024 6 1, quantity = num 2, price = Some (Fin 0),
          priceError = None, value' = Some (Fin 0)\<rparr>]) (Fin 10) = Fin 0"
  by (simp add: calculateTotalValue_def totalValueOfSpec_def acmeGrant_def js_sum_def)

text \<open>
  C5, amended: for every grant and every \<open>fallbackPrice\<close>, \<open>calculateTotalValue\<close> is the
  sum over all tranches of the quantity times \<open>p\<close>, where \<open>p\<close> is the stored price of
  the tranche when it is present and neither \<open>0\<close> nor \<open>NaN\<close>, and \<open>fallbackPrice\<close>
  otherwise.
\<close>

theorem C5_total_value:
  "calculateTotalValue grant fallbackPrice =
     js_sum (map (\<lambda>event. js_mul (quantity event)
                   (case price event of
                      None \<Rightarrow> fallbackPrice
                    | Some p \<Rightarrow> if p = Fin 0 \<or> p = NaN then fallbackPrice else p))
              (vestingSchedule grant))"
  by (simp add: calculateTotalValue_def js_sum_def foldl_map or_else_cases)

section \<open>The dates of a schedule\<close>









section \<open>The vested shares over time\<close>

lemma date_le_trans: "date_le a b \<Longrightarrow> date_le b c \<Longrightarrow> date_le a c"
  unfolding date_le_def date_less_def by (elim disjE conjE) simp_all

text \<open>
  Of tranches whose quantities are whole numbers, none below \<open>0\<close>, with a safe sum, a
  larger selection sums to no less: every partial sum is exact.
\<close>

lemma filtered_sums:
  assumes "map quantity evs = map num qs" and "\<forall>q \<in> set qs. 0 \<le> q"
    and "\<forall>e. P e \<longrightarrow> Q e"
    and "0 \<le> a" and "a \<le> b" and "b + sum_list qs \<le> 2 ^ 53"
  shows "\<exists>s t. foldl (\<lambda>total event. js_add total (quantity event)) (num a) (filter P evs) = num s \<and>
           foldl (\<lambda>total event. js_add total (quantity event)) (num b) (filter Q evs) = num t \<and>
           0 \<le> s \<and> s \<le> t \<and> t \<le> 2 ^ 53"
  using assms(1,2,4,5,6)
proof (induction evs arbitrary: qs a b)
  case Nil
  then show ?case by auto
next
  case (Cons e evs)
  from Cons.prems(1) obtain q qs' where
    qs: "qs = q # qs'" "quantity e = num q" "map quantity evs = map num qs'"
    by (cases qs) auto
  have q0: "0 \<le> q" and s0: "0 \<le> sum_list qs'" and pos: "\<forall>q \<in> set qs'. 0 \<le> q"
    using Cons.prems(2) qs(1) by (simp_all add: sum_list_nonneg)
  have bq: "b + q + sum_list qs' \<le> 2 ^ 53" using Cons.prems(5) qs(1) by simp
  have adda: "js_add (num a) (num q) = num (a + q)"
    using Cons.prems(3,4) q0 s0 bq by (intro num_add) simp_all
  have addb: "js_add (num b) (num q) = num (b + q)"
    using Cons.prems(3,4) q0 s0 bq by (intro num_add) simp_all
  have b': "b + sum_list qs' \<le> 2 ^ 53" using bq q0 by simp
  show ?case
  proof (cases "Q e")
    case False
    then have "\<not> P e" using assms(3) by blast
    with False Cons.IH [OF qs(3) pos Cons.prems(3,4) b'] show ?thesis by simp
  next
    case True
    show ?thesis
    proof (cases "P e")
      case True
      have "0 \<le> a + q" "a + q \<le> b + q" using Cons.prems(3,4) q0 by simp_all
      from Cons.IH [OF qs(3) pos this bq] True \<open>Q e\<close> show ?thesis
        by (simp add: qs(2) adda addb)
    next
      case False
      have "a \<le> b + q" using Cons.prems(4) q0 by simp
      from Cons.IH [OF qs(3) pos Cons.prems(3) this bq] False \<open>Q e\<close> show ?thesis
        by (simp add: qs(2) addb)
    qed
  qed
qed

lemma vested_mono:
  assumes "map quantity (vestingSchedule grant) = map num qs" and "\<forall>q \<in> set qs. 0 \<le> q"
    and "sum_list qs \<le> 2 ^ 53" and "date_le d1 d2"
  shows "js_le (calculateTotalVestedShares grant d1) (calculateTotalVestedShares grant d2)"
proof -
  have imp: "\<forall>e. date_le (date e) d1 \<longrightarrow> date_le (date e) d2"
    using assms(4) by (auto intro: date_le_trans)
  have "0 + sum_list qs \<le> 2 ^ 53" using assms(3) by simp
  from filtered_sums [OF assms(1,2) imp order_refl order_refl this]
  obtain s t where st:
    "foldl (\<lambda>total event. js_add total (quantity event)) (num 0)
       (filter (\<lambda>e. date_le (date e) d1) (vestingSchedule grant)) = num s"
    "foldl (\<lambda>total event. js_add total (quantity event)) (num 0)
       (filter (\<lambda>e. date_le (date e) d2) (vestingSchedule grant)) = num t"
    "0 \<le> s" "s \<le> t" "t \<le> 2 ^ 53"
    by blast
  have "num s = Fin (of_int s)" "num t = Fin (of_int t)"
    using st(3-5) by (simp_all add: num_safe)
  with st show ?thesis by (simp add: calculateTotalVestedShares_def)
qed

text \<open>
  The largest double, \<open>Number.MAX_VALUE\<close>: a third of it, rounded, is a whole number,
  and three times that overflows.
\<close>

lemma max_value:
  "num ((2 ^ 53 - 1) * 2 ^ 971) = Fin ((2 ^ 53 - 1) * 2 ^ 971)"
  "round64 ((2 ^ 53 - 1) * 2 ^ 971 / 3) = Fin (6004799503160661 * 2 ^ 970)"
  "round64 (6004799503160661 * 2 ^ 970 * 3) = PosInf"
proof -
  show "num ((2 ^ 53 - 1) * 2 ^ 971) = Fin ((2 ^ 53 - 1) * 2 ^ 971)"
    unfolding num_def
    by (simp, subst round64_normal [where k = 1023]) (simp_all add: pow2_def roundHalfEven_def)
  show "round64 ((2 ^ 53 - 1) * 2 ^ 971 / 3) = Fin (6004799503160661 * 2 ^ 970)"
    by (subst round64_normal [where k = 1022]) (simp_all add: pow2_def roundHalfEven_def)
  show "round64 (6004799503160661 * 2 ^ 970 * 3) = PosInf"
    by (subst round64_overflow [where k = 1023]) (simp_all add: pow2_def roundHalfEven_def)
qed

text \<open>
  C7, as the spec states it, fails: with a cliff beyond the vesting period the one
  tranche has a quantity below \<open>0\<close>, or \<open>NaN\<close>. For 100 shares over one year with a cliff
  of 24 months, monthly, granted on the first of January 2024, the vested shares are
  \<open>0\<close> on the grant date and \<open>-20\<close> two years later. And it fails where the arithmetic
  overflows: of \<open>Number.MAX_VALUE\<close> shares over one year with a cliff of 4 months,
  every 4 months, the product of the shares per vesting and the 3 events is
  \<open>Infinity\<close>, the remaining shares and the tranche at the cliff are \<open>-Infinity\<close>, and
  the vested shares are \<open>0\<close> on the grant date and \<open>-Infinity\<close> four months later.
\<close>

theorem C7_counterexample:
  "generateVestingSchedule (localMidnight 2024 0 1) 100 1 24 1 =
     Some [vestingEvent (localMidnight 2024 0 1) 24 (num (- 20))] \<and>
   date_le (localMidnight 2024 0 1) (localMidnight 2026 0 1) \<and>
   calculateTotalVestedShares
     (acmeGrant (localMidnight 2024 0 1) (num 100)
        [vestingEvent (localMidnight 2024 0 1) 24 (num (- 20))])
     (localMidnight 2024 0 1) = num 0 \<and>
   calculateTotalVestedShares
     (acmeGrant (localMidnight 2024 0 1) (num 100)
        [vestingEvent (localMidnight 2024 0 1) 24 (num (- 20))])
     (localMidnight 2026 0 1) = num (- 20) \<and>
   \<not> js_le (num 0) (num (- 20)) \<and>
   generateVestingSchedule (localMidnight 2024 0 1) ((2 ^ 53 - 1) * 2 ^ 971) 1 4 4 =
     Some [vestingEvent (localMidnight 2024 0 1) 4 NegInf,
           vestingEvent (localMidnight 2024 0 1) 8 (Fin (6004799503160661 * 2 ^ 970)),
           vestingEvent (localMidnight 2024 0 1) 12 (Fin (6004799503160661 * 2 ^ 970))] \<and>
   date_le (localMidnight 2024 0 1) (localMidnight 2024 4 1) \<and>
   calculateTotalVestedShares
     (acmeGrant (localMidnight 2024 0 1) (num ((2 ^ 53 - 1) * 2 ^ 971))
        [vestingEvent (localMidnight 2024 0 1) 4 NegInf,
         vestingEvent (localMidnight 2024 0 1) 8 (Fin (6004799503160661 * 2 ^ 970)),
         vestingEvent (localMidnight 2024 0 1) 12 (Fin (6004799503160661 * 2 ^ 970))])
     (localMidnight 2024 0 1) = Fin 0 \<and>
   calculateTotalVestedShares
     (acmeGrant (localMidnight 2024 0 1) (num ((2 ^ 53 - 1) * 2 ^ 971))
        [vestingEvent (localMidnight 2024 0 1) 4 NegInf,
         vestingEvent (localMidnight 2024 0 1) 8 (Fin (6004799503160661 * 2 ^ 970)),
         vestingEvent (localMidnight 2024 0 1) 12 (Fin (6004799503160661 * 2 ^ 970))])
     (localMidnight 2024 4 1) = NegInf \<and>
   \<not> js_le (Fin 0) NegInf"
  by (simp add: schedule_eval max_value [simplified] calculateTotalVestedShares_def acmeGrant_def
        vestingEvent_def addMonths_def getDaysInMonth_def localMidnight_def date_le_def
        date_less_def)

text \<open>
  C7, amended: for every grant whose schedule has the dates and the quantities of the
  schedule \<open>generateVestingSchedule\<close> returns on an input with positive \<open>totalShares\<close>
  below \<open>2^53\<close> and positive \<open>vestingYears\<close>, \<open>cliffMonths\<close> from \<open>0\<close> to the vesting period
  \<open>vestingYears * 12\<close>, \<open>frequencyMonths\<close> at least \<open>1\<close> and the period and the frequency
  together at most \<open>2^53\<close> months, whatever prices its tranches carry, and for any two
  dates \<open>d1 <= d2\<close>, the shares vested as of \<open>d1\<close> are at most the shares vested as of
  \<open>d2\<close>.
\<close>

theorem C7_vested_monotone:
  assumes "0 < totalShares" and "0 < vestingPeriodYears" and "0 \<le> cliffMonths"
    and "1 \<le> vestingFrequencyMonths"
    and "cliffMonths \<le> vestingPeriodYears * 12"
    and "totalShares < 2 ^ 53"
    and "vestingPeriodYears * 12 + vestingFrequencyMonths \<le> 2 ^ 53"
    and "generateVestingSchedule (grantDate grant) totalShares vestingPeriodYears cliffMonths
           vestingFrequencyMonths = Some vestingEvents"
    and "map date (vestingSchedule grant) = map date vestingEvents"
    and "map quantity (vestingSchedule grant) = map quantity vestingEvents"
    and "date_le d1 d2"
  shows "js_le (calculateTotalVestedShares grant d1) (calculateTotalVestedShares grant d2)"
proof -
  from schedule_shape [OF assms(1-7), of "grantDate grant"] assms(8) obtain b r where
    s: "vestingEvents = scheduleOf (grantDate grant) (vestingPeriodYears * 12) cliffMonths
           vestingFrequencyMonths b r"
    and b: "0 \<le> b" "0 \<le> r"
    and t: "sum_list (shareCounts (vestingPeriodYears * 12) cliffMonths
              vestingFrequencyMonths b r) \<le> totalShares"
    by auto
  have "map quantity (vestingSchedule grant) =
      map num (shareCounts (vestingPeriodYears * 12) cliffMonths vestingFrequencyMonths b r)"
    using assms(10) by (simp add: s quantities_scheduleOf)
  moreover have "\<forall>q \<in> set (shareCounts (vestingPeriodYears * 12) cliffMonths
      vestingFrequencyMonths b r). 0 \<le> q"
    using b by (rule shareCounts_nonneg)
  moreover have "sum_list (shareCounts (vestingPeriodYears * 12) cliffMonths
      vestingFrequencyMonths b r) \<le> 2 ^ 53"
    using t assms(6) by simp
  ultimately show ?thesis using assms(11) by (rule vested_mono)
qed

theorem C7_vested_monotone_witness:
  "(0::int) < 100 \<and> (0::int) < 1 \<and> (0::int) \<le> 6 \<and> (1::int) \<le> 6 \<and> (6::int) \<le> 1 * 12 \<and>
   (100::int) < 2 ^ 53 \<and> (1::int) * 12 + 6 \<le> 2 ^ 53 \<and>
   generateVestingSchedule (localMidnight 2024 0 1) 100 1 6 6 =
     Some [vestingEvent (localMidnight 2024 0 1) 6 (num 50),
           vestingEvent (localMidnight 2024 0 1) 12 (num 50)] \<and>
   date_le (localMidnight 2024 6 1) (localMidnight 2025 0 1) \<and>
   js_le
     (calculateTotalVestedShares
        (acmeGrant (localMidnight 2024 0 1) (num 100)
           [vestingEvent (localMidnight 2024 0 1) 6 (num 50)\<lparr>price := Some (Fin 150)\<rparr>,
            vestingEvent (localMidnight 2024 0 1) 12 (num 50)\<lparr>priceError := Some ''HTTP error''\<rparr>])
        (localMidnight 2024 6 1))
     (calculateTotalVestedShares
        (acmeGrant (localMidnight 2024 0 1) (num 100)
           [vestingEvent (localMidnight 2024 0 1) 6 (num 50)\<lparr>price := Some (Fin 150)\<rparr>,
            vestingEvent (localMidnight 2024 0 1) 12 (num 50)\<lparr>priceError := Some ''HTTP error''\<rparr>])
        (localMidnight 2025 0 1))"
  using C7_vested_monotone [of 100 1 6 6
      "acmeGrant (localMidnight 2024 0 1) (num 100)
         [vestingEvent (localMidnight 2024 0 1) 6 (num 50)\<lparr>price := Some (Fin 150)\<rparr>,
          vestingEvent (localMidnight 2024 0 1) 12 (num 50)\<lparr>priceError := Some ''HTTP error''\<rparr>]"
      "[vestingEvent (localMidnight 2024 0 1) 6 (num 50),
        vestingEvent (localMidnight 2024 0 1) 12 (num 50)]"
      "localMidnight 2024 6 1" "localMidnight 2025 0 1"]
  by (simp add: schedule_eval acmeGrant_def localMidnight_def date_le_def date_less_def)

section \<open>Prices of future dates\<close>

text \<open>
  C8: for every symbol and every date later than the current date, the date the clock
  gives when \<open>fetchHistoricalPrice\<close> reads it, \<open>fetchHistoricalPrice\<close> returns \<open>null\<close>,
  which is no error, and all it has done is read the clock: it has sent no request.
\<close>

theorem C8_future_date:
  assumes "date_less (clock e (clockReads w)) d"
  shows "fetchHistoricalPrice e ticker d w =
           (Inr None, w\<lparr>clockReads := Suc (clockReads w)\<rparr>) \<and>
         \<not> isl (fst (fetchHistoricalPrice e ticker d w)) \<and>
         requests (snd (fetchHistoricalPrice e ticker d w)) = requests w"
  using assms by (simp add: fetchHistoricalPrice_def newDate_def)

theorem C8_future_date_witness:
  "date_less (clock offline (clockReads untouched)) (localMidnight 2025 0 1) \<and>
   fetchHistoricalPrice offline ''ACME'' (localMidnight 2025 0 1) untouched =
     (Inr None, untouched\<lparr>clockReads := 1\<rparr>) \<and>
   requests (snd (fetchHistoricalPrice offline ''ACME'' (localMidnight 2025 0 1) untouched))
     = []"
  using C8_future_date [of offline untouched "localMidnight 2025 0 1" "''ACME''"]
  by (simp add: offline_def untouched_def localMidnight_def date_less_def)

section \<open>What attaching prices leaves alone\<close>

lemma fetchStockPrice_world:
  "snd (fetchStockPrice e s w) = w\<lparr>requests := requests w @ [CurrentChart s]\<rparr>"
  by (simp add: fetchStockPrice_def fetch_def)

lemma updateVestingEvent_frame:
  "date (fst (updateVestingEvent e grant cp event w)) = date event"
  "quantity (fst (updateVestingEvent e grant cp event w)) = quantity event"
  by (simp_all add: updateVestingEvent_def Let_def split: prod.splits sum.splits)

lemma updateSchedule_frame:
  "map date (fst (updateSchedule e grant cp events w)) = map date events \<and>
   map quantity (fst (updateSchedule e grant cp events w)) = map quantity events"
proof (induction events arbitrary: w)
  case Nil
  show ?case by simp
next
  case (Cons event events)
  obtain event' w1 where 1: "updateVestingEvent e grant cp event w = (event', w1)"
    by (cases "updateVestingEvent e grant cp event w")
  obtain events' w2 where 2: "updateSchedule e grant cp events w1 = (events', w2)"
    by (cases "updateSchedule e grant cp events w1")
  show ?case
    using Cons [of w1] updateVestingEvent_frame [of e grant cp event w] 1 2 by simp
qed

lemma updateVestPrices_frame: "sameGrantAndTranches grant (fst (updateVestPrices e grant w))"
proof (cases "fetchStockPrice e (symbol grant) w")
  case (Pair r w1)
  show ?thesis
  proof (cases r)
    case (Inl err)
    with Pair show ?thesis
      by (simp add: updateVestPrices_def sameGrantAndTranches_def)
  next
    case (Inr cp)
    obtain events' w2 where 2:
      "updateSchedule e grant cp (vestingSchedule grant) w1 = (events', w2)"
      by (cases "updateSchedule e grant cp (vestingSchedule grant) w1")
    have "length events' = length (vestingSchedule grant)"
      using updateSchedule_frame [of e grant cp "vestingSchedule grant" w1] 2
      by (metis fst_conv length_map)
    with Pair Inr 2 updateSchedule_frame [of e grant cp "vestingSchedule grant" w1]
    show ?thesis
      by (simp add: updateVestPrices_def sameGrantAndTranches_def)
  qed
qed

lemma updateVestPrices'_frame: "sameGrantAndTranches grant (fst (updateVestPrices' e grant w))"
proof (cases "fetchStockPrice e (symbol grant) w")
  case (Pair r w1)
  show ?thesis
  proof (cases r)
    case (Inl err)
    with Pair show ?thesis
      by (simp add: updateVestPrices'_def sameGrantAndTranches_def)
  next
    case (Inr cp)
    define w1' where "w1' = setStockPrices (symbol grant) cp w1"
    obtain events' w2 where 2:
      "updateSchedule e grant cp (vestingSchedule grant) w1' = (events', w2)"
      by (cases "updateSchedule e grant cp (vestingSchedule grant) w1'")
    have "length events' = length (vestingSchedule grant)"
      using updateSchedule_frame [of e grant cp "vestingSchedule grant" w1'] 2
      by (metis fst_conv length_map)
    with Pair Inr 2 updateSchedule_frame [of e grant cp "vestingSchedule grant" w1']
    show ?thesis
      by (simp add: updateVestPrices'_def sameGrantAndTranches_def w1'_def Let_def)
  qed
qed

text \<open>
  C9: for every grant and whatever the clock and the requests answer, the grant that
  \<open>updateVestPrices\<close> returns (either of the two) has a schedule of the same length, in
  which each tranche has the date and the quantity of the tranche at its place in the
  input, and it has the grant date, the quantity, the grant price and the symbol of
  the input. What may differ is the rest: \<open>currentPrice\<close> and \<open>priceError\<close> of the
  grant, and \<open>price\<close>, \<open>priceError\<close> and \<open>value\<close> of each tranche.
\<close>

theorem C9_prices_only:
  "sameGrantAndTranches grant (fst (updateVestPrices e grant w)) \<and>
   sameGrantAndTranches grant (fst (updateVestPrices' e grant w))"
  by (simp add: updateVestPrices_frame updateVestPrices'_frame)

text \<open>
  C10: if fetching the current price fails, \<open>updateVestPrices\<close> (either of the two)
  returns the input grant with \<open>priceError\<close> set to the message \<open>Failed to fetch
  prices\<close> and nothing else changed: the schedule is the one of the input, with the
  prices and values it had, and \<open>currentPrice\<close> is the one of the input. The only
  request sent is the one for the current price, so no price of a tranche has been
  asked for; the clock has not been read and the price table not been updated.
\<close>

theorem C10_current_price_failure:
  assumes "fst (fetchStockPrice e (symbol grant) w) = Inl err"
  shows "updateVestPrices e grant w =
           (grant\<lparr>grantPriceError := Some ''Failed to fetch prices''\<rparr>,
            w\<lparr>requests := requests w @ [CurrentChart (symbol grant)]\<rparr>) \<and>
         updateVestPrices' e grant w =
           (grant\<lparr>grantPriceError := Some ''Failed to fetch prices''\<rparr>,
            w\<lparr>requests := requests w @ [CurrentChart (symbol grant)]\<rparr>)"
proof (cases "fetchStockPrice e (symbol grant) w")
  case (Pair r w1)
  with assms fetchStockPrice_world [of e "symbol grant" w] show ?thesis
    by (simp add: updateVestPrices_def updateVestPrices'_def)
qed

theorem C10_current_price_failure_witness:
  "fst (fetchStockPrice offline
          (symbol (acmeGrant (localMidnight 2023 0 1) (num 50)
             [\<lparr>date = localMidnight 2023 6 1, quantity = num 50, price = Some (Fin 12),
               priceError = None, value' = Some (Fin 600)\<rparr>])) untouched)
     = Inl FetchRejected \<and>
   updateVestPrices offline
     (acmeGrant (localMidnight 2023 0 1) (num 50)
        [\<lparr>date = localMidnight 2023 6 1, quantity = num 50, price = Some (Fin 12),
          priceError = None, value' = Some (Fin 600)\<rparr>]) untouched =
     (\<lparr>grantDate = localMidnight 2023 0 1, grantQuantity = num 50, grantPrice = Fin 10,
       symbol = ''ACME'', currentPrice = None,
       grantPriceError = Some ''Failed to fetch prices'',
       vestingSchedule =
         [\<lparr>date = localMidnight 2023 6 1, quantity = num 50, price = Some (Fin 12),
           priceError = None, value' = Some (Fin 600)\<rparr>]\<rparr>,
      \<lparr>clockReads = 0, requests = [CurrentChart ''ACME''], stockPriceUpdates = []\<rparr>)"
  using C10_current_price_failure
    [of offline
      "acmeGrant (localMidnight 2023 0 1) (num 50)
         [\<lparr>date = localMidnight 2023 6 1, quantity = num 50, price = Some (Fin 12),
           priceError = None, value' = Some (Fin 600)\<rparr>]"
      untouched FetchRejected]
  by (simp add: offline_def untouched_def fetchStockPrice_def fetch_def acmeGrant_def)

end
